theory Spec2Isabelle
  imports Complex_Main
begin

section \<open>JavaScript values, strings and plain objects\<close>

text \<open>
  The library is written in JavaScript. The embedding fixes the following reading of its
  data.

  \<^item> A string is a \<open>string\<close>: a list of code units, each read as one of the code points
    U+0000 to U+00FF. \<open>length\<close> is the \<open>length\<close> property.
  \<^item> A number is a \<open>real\<close>; the values \<open>NaN\<close> and \<open>\<plusminus>Infinity\<close> are not numbers of the
    embedding. In \<open>PrivacyPreservingLearner\<close>, which compares its budget after an addition,
    every sum and difference is rounded, and the rounding is a parameter of the embedding;
    the other arithmetic of the code is read exactly.
  \<^item> A primitive value is a \<open>jsval\<close>.
  \<^item> A plain object is the list of its own enumerable properties in the order in which
    \<open>Object.entries\<close> and the spread operator visit them.
\<close>

datatype jsval = JUndefined | JNull | JBool bool | JNum real | JStr string

type_synonym jsobject = "(string \<times> jsval) list"

text \<open>
  Writing a key of an insertion-ordered table (\<open>Map.prototype.set\<close>, \<open>Set.prototype.add\<close>
  through \<open>put k ()\<close>, and \<open>obj[key] = v\<close> on a plain object): an existing key keeps its
  place and takes the new value, a new key goes last.
\<close>

fun put :: "'k \<Rightarrow> 'v \<Rightarrow> ('k \<times> 'v) list \<Rightarrow> ('k \<times> 'v) list" where
  "put k v [] = [(k, v)]"
| "put k v ((k', v') # rest) =
     (if k' = k then (k, v) # rest else (k', v') # put k v rest)"

text \<open>\<open>obj[key]\<close> for a key that \<open>Object.prototype\<close> does not define.\<close>

definition obj_get :: "jsobject \<Rightarrow> string \<Rightarrow> jsval" where
  "obj_get obj k = (case map_of obj k of None \<Rightarrow> JUndefined | Some v \<Rightarrow> v)"

definition obj_set :: "jsobject \<Rightarrow> string \<Rightarrow> jsval \<Rightarrow> jsobject" where
  "obj_set obj k v = put k v obj"

text \<open>
  The white space of \<open>\s\<close> and of \<open>String.prototype.trim\<close> among the code points below
  U+0100: tab, line feed, vertical tab, form feed, carriage return, space and the
  no-break space.
\<close>

definition is_space :: "char \<Rightarrow> bool" where
  "is_space c = (of_char c \<in> {9, 10, 11, 12, 13, 32, 160 :: nat})"

definition trim :: "string \<Rightarrow> string" where
  "trim s = rev (dropWhile is_space (rev (dropWhile is_space s)))"

text \<open>\<open>s.split(c)\<close> for a separator of one code unit.\<close>

fun split_on :: "char \<Rightarrow> string \<Rightarrow> string list" where
  "split_on c [] = [[]]"
| "split_on c (x # xs) =
     (if x = c then [] # split_on c xs
      else (case split_on c xs of
              [] \<Rightarrow> [[x]]
            | p # ps \<Rightarrow> (x # p) # ps))"

text \<open>
  \<open>s.split(/\s+/)\<close>: the pieces between the maximal runs of white space. A string that
  starts or ends with white space has an empty first or last piece.
\<close>

function split_ws :: "string \<Rightarrow> string list" where
  "split_ws [] = [[]]"
| "split_ws (c # cs) =
     (if is_space c then [] # split_ws (dropWhile is_space cs)
      else (case split_ws cs of
              [] \<Rightarrow> [[c]]
            | p # ps \<Rightarrow> (c # p) # ps))"
  by pat_completeness auto
termination
  by (relation "measure length") (auto simp: less_Suc_eq_le length_dropWhile_le)

text \<open>\<open>s.startsWith(p)\<close> and \<open>s.includes(p)\<close>.\<close>

definition starts_with :: "string \<Rightarrow> string \<Rightarrow> bool" where
  "starts_with s p = (take (length p) s = p)"

fun includes_str :: "string \<Rightarrow> string \<Rightarrow> bool" where
  "includes_str [] p = (p = [])"
| "includes_str (c # cs) p = (starts_with (c # cs) p \<or> includes_str cs p)"

text \<open>
  \<open>s.toLowerCase()\<close> on the code points below U+0100: the letters A to Z and the
  letters U+00C0 to U+00DE other than the multiplication sign move up by 32.
\<close>

definition lower_char :: "char \<Rightarrow> char" where
  "lower_char c =
     (let n = (of_char c :: nat)
      in if (65 \<le> n \<and> n \<le> 90) \<or> (192 \<le> n \<and> n \<le> 222 \<and> n \<noteq> 215)
         then char_of (n + 32) else c)"

definition toLowerCase :: "string \<Rightarrow> string" where
  "toLowerCase s = map lower_char s"

text \<open>
  The order of \<open>Object.keys\<close> and \<open>Object.entries\<close> on an object that the code filled
  key by key: the keys that are array indices (canonical decimal numerals below
  \<open>2\<^sup>3\<^sup>2 - 1\<close>) come first in ascending numeric order, the other keys follow in
  the order of their creation.
\<close>

definition is_digit :: "char \<Rightarrow> bool" where
  "is_digit c = (48 \<le> (of_char c :: nat) \<and> (of_char c :: nat) \<le> 57)"

definition decimal_value :: "string \<Rightarrow> nat" where
  "decimal_value s = foldl (\<lambda>n c. 10 * n + (of_char c - 48)) 0 s"

definition array_index :: "string \<Rightarrow> nat option" where
  "array_index s =
     (if s \<noteq> [] \<and> list_all is_digit s \<and> (length s = 1 \<or> hd s \<noteq> CHR ''0'')
         \<and> decimal_value s < 4294967295
      then Some (decimal_value s) else None)"

definition own_entries :: "(string \<times> 'v) list \<Rightarrow> (string \<times> 'v) list" where
  "own_entries obj =
     sort_key (\<lambda>(k, v). case array_index k of Some i \<Rightarrow> i | None \<Rightarrow> 0)
       (filter (\<lambda>(k, v). array_index k \<noteq> None) obj)
     @ filter (\<lambda>(k, v). array_index k = None) obj"

definition own_keys :: "(string \<times> 'v) list \<Rightarrow> string list" where
  "own_keys obj = map fst (own_entries obj)"

text \<open>
  A plain object inherits the members of \<open>Object.prototype\<close>. The embedding takes the
  prototype as the language defines it: these names, each a function but for the accessor
  \<open>__proto__\<close>, and no enumerable property.
\<close>

definition proto_names :: "string list" where
  "proto_names =
     [''constructor'', ''hasOwnProperty'', ''isPrototypeOf'', ''propertyIsEnumerable'',
      ''toLocaleString'', ''toString'', ''valueOf'', ''__proto__'',
      ''__defineGetter__'', ''__defineSetter__'', ''__lookupGetter__'', ''__lookupSetter__'']"

text \<open>
  What the code can meet. \<open>TypeError\<close> is the exception of the language, \<open>Thrown\<close> an
  \<open>Error\<close> that the code throws with its message.
  \<open>Builtin_property\<close> is the limit of the embedding: the code went on with a member of
  \<open>Object.prototype\<close> that it took for an entry of its own table (it calls it, or writes a
  property of it), and the embedding does not follow it there.
\<close>

datatype error = TypeError | Thrown string | Builtin_property

text \<open>
  A table of counts kept in a plain object. A cell holds a count, or \<open>Junk\<close>: the string
  that \<open>+ 1\<close> makes of an inherited function, which compares false with every number.
  \<open>bump k\<close> is \<open>obj[k] = (obj[k] || 0) + 1\<close>. For a key that the object does not own
  and \<open>Object.prototype\<close> defines, the value read is the inherited member, and the write
  creates a \<open>Junk\<close> cell; the setter of \<open>__proto__\<close> ignores the string and creates nothing.
\<close>

datatype cell = Count nat | Junk

type_synonym counter = "(string \<times> cell) list"

definition bump :: "string \<Rightarrow> counter \<Rightarrow> counter" where
  "bump k obj =
     (case map_of obj k of
        Some (Count n) \<Rightarrow> put k (Count (n + 1)) obj
      | Some Junk \<Rightarrow> put k Junk obj
      | None \<Rightarrow>
          if k = ''__proto__'' then obj
          else if k \<in> set proto_names then put k Junk obj
          else put k (Count 1) obj)"

text \<open>
  The loop \<open>if (count > maxCount) { maxCount = count; mostFrequent = key }\<close> over the
  entries of a table of counts, from \<open>maxCount = 0\<close> and the empty string.
\<close>

fun most_frequent_step :: "nat \<times> string \<Rightarrow> string \<times> cell \<Rightarrow> nat \<times> string" where
  "most_frequent_step (maxCount, best) (k, Count n) =
     (if n > maxCount then (n, k) else (maxCount, best))"
| "most_frequent_step (maxCount, best) (k, Junk) = (maxCount, best)"

definition most_frequent :: "counter \<Rightarrow> nat \<times> string" where
  "most_frequent obj = foldl most_frequent_step (0, '''') (own_entries obj)"

section \<open>PrivacyPreservingLearner\<close>

text \<open>
  An element of the data array: \<open>typeof record === 'object' && record !== null\<close> holds of
  \<open>Rec\<close>, and of no \<open>Val\<close>.
\<close>

datatype item = Rec jsobject | Val jsval

fun generalizeAge :: "jsval \<Rightarrow> jsval" where
  "generalizeAge (JNum age) =
     (if age < 18 then JStr ''minor''
      else if age < 30 then JStr ''young-adult''
      else if age < 50 then JStr ''middle-aged''
      else if age < 65 then JStr ''senior''
      else JStr ''elderly'')"
| "generalizeAge age = age"

fun generalizeIncome :: "jsval \<Rightarrow> jsval" where
  "generalizeIncome (JNum income) =
     (if income < 30000 then JStr ''low''
      else if income < 60000 then JStr ''medium''
      else if income < 100000 then JStr ''high''
      else JStr ''very-high'')"
| "generalizeIncome income = income"

fun generalizeLocation :: "jsval \<Rightarrow> jsval" where
  "generalizeLocation (JStr location) =
     (let parts = split_on CHR '','' location
      in if length parts > 1 then JStr (trim (hd parts)) else JStr location)"
| "generalizeLocation location = location"

fun generalizeIdCard :: "jsval \<Rightarrow> jsval" where
  "generalizeIdCard (JStr idCard) =
     (if length idCard \<ge> 18
      then JStr (take 6 idCard @ ''**********'' @ drop 17 idCard)
      else JStr idCard)"
| "generalizeIdCard idCard = idCard"

text \<open>
  One step of a generalization: \<open>if (record.k !== undefined) copy.k = f(record.k)\<close>, the
  test and the argument both read from the record that came in.
\<close>

definition generalize_field ::
  "jsobject \<Rightarrow> string \<Rightarrow> (jsval \<Rightarrow> jsval) \<Rightarrow> jsobject \<Rightarrow> jsobject" where
  "generalize_field record k f copy =
     (if obj_get record k \<noteq> JUndefined then obj_set copy k (f (obj_get record k)) else copy)"

text \<open>
  The class \<open>PrivacyPreservingLearner\<close> exists twice in the repository, and the two copies
  differ in \<open>generalizeSensitiveFields\<close> only. The class of the source module rewrites
  \<open>location\<close>; its comment says that age, income, phone and email are not processed and
  keep the original data for the display of suggestions. The class of the distributed
  bundle rewrites \<open>age\<close>, \<open>income\<close>, \<open>idCard\<close> and \<open>address\<close>, in this order.
\<close>

datatype build = Source_module | Bundle

fun generalize_record :: "build \<Rightarrow> item \<Rightarrow> item" where
  "generalize_record Source_module (Rec record) =
     Rec (generalize_field record ''location'' generalizeLocation record)"
| "generalize_record Bundle (Rec record) =
     Rec (generalize_field record ''address'' generalizeLocation
           (generalize_field record ''idCard'' generalizeIdCard
             (generalize_field record ''income'' generalizeIncome
               (generalize_field record ''age'' generalizeAge record))))"
| "generalize_record b (Val v) = Val v"

definition generalizeSensitiveFields :: "build \<Rightarrow> item list \<Rightarrow> item list" where
  "generalizeSensitiveFields b data = map (generalize_record b) data"

text \<open>
  The arithmetic of the code is that of the doubles: the result of \<open>+\<close> and of \<open>-\<close> is the
  exact result rounded. The embedding takes the rounding as a parameter \<open>fl\<close>, from the
  exact result to the number that the operation returns, and writes every \<open>+\<close> and \<open>-\<close>
  of the class as \<open>fl\<close> of the exact one. \<open>binary64\<close> below is the rounding of the code;
  the identity is the reading in which the arithmetic is exact.
\<close>

type_synonym rounding = "real \<Rightarrow> real"

text \<open>
  Rounding to the nearest double, a tie going to the even significand. The doubles of the
  binade of \<open>x\<close> are the multiples of \<open>spacing x\<close>, which is \<open>2\<^sup>e\<^sup>-\<^sup>5\<^sup>2\<close> for the exponent
  \<open>e\<close> of \<open>x\<close>, at least \<open>-1022\<close>: below \<open>2\<^sup>-\<^sup>1\<^sup>0\<^sup>2\<^sup>2\<close> lie the subnormal numbers, with the
  spacing \<open>2\<^sup>-\<^sup>1\<^sup>0\<^sup>7\<^sup>4\<close>. A result beyond the largest double, \<open>Infinity\<close> in the code, is
  not a number of the embedding, and \<open>binary64\<close> goes on with the same rule there.
\<close>

definition round_half_even :: "real \<Rightarrow> int" where
  "round_half_even x =
     (let n = \<lfloor>x\<rfloor>; r = x - of_int n
      in if r < 1 / 2 then n else if r > 1 / 2 then n + 1 else if even n then n else n + 1)"

definition exponent :: "real \<Rightarrow> int" where
  "exponent x = max \<lfloor>log 2 \<bar>x\<bar>\<rfloor> (- 1022)"

definition spacing :: "real \<Rightarrow> real" where
  "spacing x = 2 powr of_int (exponent x - 52)"

definition binary64 :: rounding where
  "binary64 x =
     (if x = 0 then 0 else of_int (round_half_even (x / spacing x)) * spacing x)"

text \<open>
  \<open>generateLaplaceNoise(1 / epsilon)\<close> draws from \<open>Math.random\<close> and takes a logarithm.
  The embedding takes it as a parameter \<open>gen\<close>: from \<open>epsilon\<close> and the state of the random
  source to the noise and the next state. \<open>addLaplaceNoise\<close> calls it once for every
  numeric property, in the order of the records and of their entries, and fills a new
  object with \<open>noisyRecord[key] = ...\<close>. For the key \<open>__proto__\<close> this assignment runs the
  setter of \<open>Object.prototype\<close>, which creates no property: the noise is drawn and the entry
  is lost.
\<close>

type_synonym 'g noise_gen = "real \<Rightarrow> 'g \<Rightarrow> real \<times> 'g"

definition assign_entry :: "string \<Rightarrow> jsval \<Rightarrow> jsobject \<Rightarrow> jsobject" where
  "assign_entry k v rest = (if k = ''__proto__'' then rest else (k, v) # rest)"

fun noisy_entries ::
  "rounding \<Rightarrow> 'g noise_gen \<Rightarrow> real \<Rightarrow> jsobject \<Rightarrow> 'g \<Rightarrow> jsobject \<times> 'g" where
  "noisy_entries fl gen epsilon [] g = ([], g)"
| "noisy_entries fl gen epsilon ((k, JNum x) # rest) g =
     (let (noise, g1) = gen epsilon g;
          (rest', g2) = noisy_entries fl gen epsilon rest g1
      in (assign_entry k (JNum (fl (x + noise))) rest', g2))"
| "noisy_entries fl gen epsilon ((k, v) # rest) g =
     (let (rest', g1) = noisy_entries fl gen epsilon rest g
      in (assign_entry k v rest', g1))"

fun noisy_record :: "rounding \<Rightarrow> 'g noise_gen \<Rightarrow> real \<Rightarrow> item \<Rightarrow> 'g \<Rightarrow> item \<times> 'g" where
  "noisy_record fl gen epsilon (Rec record) g =
     (let (noisyRecord, g1) = noisy_entries fl gen epsilon record g in (Rec noisyRecord, g1))"
| "noisy_record fl gen epsilon (Val (JNum x)) g =
     (let (noise, g1) = gen epsilon g in (Val (JNum (fl (x + noise))), g1))"
| "noisy_record fl gen epsilon (Val v) g = (Val v, g)"

fun addLaplaceNoise ::
  "rounding \<Rightarrow> 'g noise_gen \<Rightarrow> item list \<Rightarrow> real \<Rightarrow> 'g \<Rightarrow> item list \<times> 'g" where
  "addLaplaceNoise fl gen [] epsilon g = ([], g)"
| "addLaplaceNoise fl gen (record # rest) epsilon g =
     (let (r, g1) = noisy_record fl gen epsilon record g;
          (rs, g2) = addLaplaceNoise fl gen rest epsilon g1
      in (r # rs, g2))"

definition updateLocalModel :: "item list \<Rightarrow> item list" where
  "updateLocalModel data = data"

record learner =
  privacyBudget :: real
  usedBudget :: real

text \<open>The constructor.\<close>

definition new_learner :: learner where
  "new_learner = \<lparr>privacyBudget = 1, usedBudget = 0\<rparr>"

text \<open>
  \<open>learnWithPrivacy\<close> returns the processed data; the embedding returns with it the learner
  and the random source as the call leaves them. \<open>protect\<close> is the body of the method
  after the check of the budget, from \<open>this.usedBudget += privacyBudget\<close> on, with the
  budget that the check granted.
\<close>

definition protect ::
  "rounding \<Rightarrow> build \<Rightarrow> 'g noise_gen \<Rightarrow> learner \<Rightarrow> item list \<Rightarrow> real \<Rightarrow> 'g
     \<Rightarrow> item list \<times> learner \<times> 'g" where
  "protect fl b gen L rawData granted g =
     (let L' = L\<lparr>usedBudget := fl (usedBudget L + granted)\<rparr>;
          (noisyData, g') = addLaplaceNoise fl gen rawData granted g;
          generalizedData = generalizeSensitiveFields b noisyData
      in (updateLocalModel generalizedData, L', g'))"

definition learnWithPrivacy ::
  "rounding \<Rightarrow> build \<Rightarrow> 'g noise_gen \<Rightarrow> learner \<Rightarrow> item list \<Rightarrow> real \<Rightarrow> 'g
     \<Rightarrow> item list \<times> learner \<times> 'g" where
  "learnWithPrivacy fl b gen L rawData requested g =
     (if fl (usedBudget L + requested) > privacyBudget L
      then (let reduced = fl (privacyBudget L - usedBudget L)
            in if reduced \<le> 0 then (rawData, L, g)
               else protect fl b gen L rawData reduced g)
      else protect fl b gen L rawData requested g)"

definition resetPrivacyBudget :: "learner \<Rightarrow> learner" where
  "resetPrivacyBudget L = L\<lparr>usedBudget := 0\<rparr>"

definition getRemainingBudget :: "rounding \<Rightarrow> learner \<Rightarrow> real" where
  "getRemainingBudget fl L = fl (privacyBudget L - usedBudget L)"

text \<open>A history of calls on one learner, and the learner it leaves.\<close>

datatype learner_call = LearnWithPrivacy "item list" real | ResetPrivacyBudget

fun requested_budget :: "learner_call \<Rightarrow> real" where
  "requested_budget (LearnWithPrivacy rawData requested) = requested"
| "requested_budget ResetPrivacyBudget = 0"

fun learner_step ::
  "rounding \<Rightarrow> build \<Rightarrow> 'g noise_gen \<Rightarrow> learner \<times> 'g \<Rightarrow> learner_call \<Rightarrow> learner \<times> 'g" where
  "learner_step fl b gen (L, g) (LearnWithPrivacy rawData requested) =
     snd (learnWithPrivacy fl b gen L rawData requested g)"
| "learner_step fl b gen (L, g) ResetPrivacyBudget = (resetPrivacyBudget L, g)"

definition learner_after ::
  "rounding \<Rightarrow> build \<Rightarrow> 'g noise_gen \<Rightarrow> 'g \<Rightarrow> learner_call list \<Rightarrow> learner" where
  "learner_after fl b gen g calls =
     fst (foldl (learner_step fl b gen) (new_learner, g) calls)"

section \<open>FieldPredictionModel: the Markov chain\<close>

record markov_chain =
  transitions :: "(string \<times> counter) list"
  starters :: counter

text \<open>
  The inner loop of \<open>buildMarkovChain\<close> over the consecutive words of one label.
  \<open>transitions[current]\<close> is the row the table owns; where it owns none and the word is a
  name of \<open>Object.prototype\<close>, the code takes the inherited member for the row.
\<close>

fun record_transitions ::
  "string list \<Rightarrow> (string \<times> counter) list \<Rightarrow> error + (string \<times> counter) list" where
  "record_transitions (current # next # rest) t =
     (case map_of t current of
        Some row \<Rightarrow> record_transitions (next # rest) (put current (bump next row) t)
      | None \<Rightarrow>
          if current \<in> set proto_names then Inl Builtin_property
          else record_transitions (next # rest) (put current (bump next []) t))"
| "record_transitions parts t = Inr t"

definition add_label :: "markov_chain \<Rightarrow> string \<Rightarrow> error + markov_chain" where
  "add_label m label =
     (let parts = split_ws label;
          s = (case parts of [] \<Rightarrow> starters m | p # ps \<Rightarrow> bump p (starters m))
      in case record_transitions parts (transitions m) of
           Inl e \<Rightarrow> Inl e
         | Inr t \<Rightarrow> Inr \<lparr>transitions = t, starters = s\<rparr>)"

fun add_labels :: "markov_chain \<Rightarrow> string list \<Rightarrow> error + markov_chain" where
  "add_labels m [] = Inr m"
| "add_labels m (label # labels) =
     (case add_label m label of Inl e \<Rightarrow> Inl e | Inr m' \<Rightarrow> add_labels m' labels)"

definition buildMarkovChain :: "string list \<Rightarrow> error + markov_chain" where
  "buildMarkovChain labels = add_labels \<lparr>transitions = [], starters = []\<rparr> labels"

text \<open>
  \<open>predictWithMarkovChain\<close>; \<open>u\<close> is the value of \<open>Math.random()\<close>, read only when there is no
  partial input. A last word that the table does not own and \<open>Object.prototype\<close> defines
  reads an inherited member, which has no enumerable key: the result is the empty string
  as for any other word the table does not own.
\<close>

definition predictWithMarkovChain ::
  "real \<Rightarrow> string \<Rightarrow> (string \<times> counter) list \<Rightarrow> counter \<Rightarrow> jsval" where
  "predictWithMarkovChain u partialInput table strt =
     (if partialInput = [] then
        (let starterWords = own_keys strt
         in if length starterWords > 0
            then (let randomIndex = \<lfloor>u * real (length starterWords)\<rfloor>
                  in if 0 \<le> randomIndex \<and> nat randomIndex < length starterWords
                     then JStr (starterWords ! nat randomIndex) else JUndefined)
            else JStr '''')
      else
        (let words = split_ws partialInput;
             lastWord = last words
         in case map_of table lastWord of
              Some row \<Rightarrow>
                (let nextWords = own_keys row
                 in if length nextWords > 0 then JStr (snd (most_frequent row)) else JStr '''')
            | None \<Rightarrow> JStr ''''))"

text \<open>The \<open>predict\<close> closure of the model that \<open>buildMarkovChain\<close> returns.\<close>

definition markov_predict :: "real \<Rightarrow> markov_chain \<Rightarrow> string \<Rightarrow> jsval" where
  "markov_predict u m partialInput =
     predictWithMarkovChain u partialInput (transitions m) (starters m)"

text \<open>
  What the labels say about successors, apart from the tables: the pairs of consecutive
  words of all labels, and how often \<open>x\<close> follows \<open>w\<close> in them.
\<close>

fun pairs_of :: "string list \<Rightarrow> (string \<times> string) list" where
  "pairs_of (a # b # rest) = (a, b) # pairs_of (b # rest)"
| "pairs_of parts = []"

definition label_pairs :: "string list \<Rightarrow> (string \<times> string) list" where
  "label_pairs labels = concat (map (\<lambda>label. pairs_of (split_ws label)) labels)"

definition successor_count :: "string list \<Rightarrow> string \<Rightarrow> string \<Rightarrow> nat" where
  "successor_count labels w x = count_list (label_pairs labels) (w, x)"

text \<open>
  A table of transitions that holds exactly the counts of a list of pairs: each row has
  its keys once, and a cell for \<open>x\<close> in the row of \<open>w\<close> exactly when \<open>x\<close> follows \<open>w\<close> in
  the list, with the number of times it does.
\<close>

definition row_counts :: "counter \<Rightarrow> string \<Rightarrow> (string \<times> string) list \<Rightarrow> bool" where
  "row_counts row w ps =
     (distinct (map fst row) \<and>
      (\<forall>x. map_of row x =
             (if count_list ps (w, x) = 0 then None else Some (Count (count_list ps (w, x))))))"

definition table_counts :: "(string \<times> counter) list \<Rightarrow> (string \<times> string) list \<Rightarrow> bool" where
  "table_counts t ps =
     (\<forall>w. case map_of t w of
            None \<Rightarrow> (\<forall>x. count_list ps (w, x) = 0)
          | Some row \<Rightarrow> row_counts row w ps)"

section \<open>RealTimePredictionEngine\<close>

text \<open>
  Truthiness, and \<open>value.toString()\<close>: a method call, so a \<open>TypeError\<close> on \<open>null\<close> and
  \<open>undefined\<close>. \<open>Number.prototype.toString\<close> is the parameter \<open>num\<close>.
\<close>

fun truthy :: "jsval \<Rightarrow> bool" where
  "truthy JUndefined = False"
| "truthy JNull = False"
| "truthy (JBool b) = b"
| "truthy (JNum x) = (x \<noteq> 0)"
| "truthy (JStr s) = (s \<noteq> [])"

fun toString :: "(real \<Rightarrow> string) \<Rightarrow> jsval \<Rightarrow> error + string" where
  "toString num (JStr s) = Inr s"
| "toString num (JNum x) = Inr (num x)"
| "toString num (JBool b) = Inr (if b then ''true'' else ''false'')"
| "toString num JNull = Inl TypeError"
| "toString num JUndefined = Inl TypeError"

record training_example =
  ex_value :: jsval
  ex_timestamp :: nat

record prediction =
  p_value :: jsval
  p_confidence :: real
  p_alternatives :: "string list"
  p_source :: string

text \<open>The field element: its \<open>name\<close> and its \<open>value\<close>.\<close>

record field =
  f_name :: string
  f_value :: jsval

record engine =
  confidenceThreshold :: real
  predictionCache :: "(string \<times> prediction) list"
  cacheSizeLimit :: nat
  trainingData :: "(string \<times> training_example list) list"

text \<open>
  The constructor. \<open>stored\<close> is what \<open>_loadTrainingData\<close> finds in the local storage: the
  entries of the parsed object, none when nothing is stored or the storage fails.
\<close>

definition new_engine :: "(string \<times> training_example list) list \<Rightarrow> engine" where
  "new_engine stored =
     \<lparr>confidenceThreshold = 7 / 10,
      predictionCache = [],
      cacheSizeLimit = 100,
      trainingData = foldl (\<lambda>m (fieldName, examples). put fieldName examples m) [] stored\<rparr>"

text \<open>
  \<open>addTrainingData\<close>; \<open>now\<close> is the reading of the clock, which no code of the library
  looks at again. Saving to the local storage is outside the embedding.
\<close>

definition add_example ::
  "nat \<Rightarrow> (string \<times> training_example list) list \<Rightarrow> string \<times> jsval
     \<Rightarrow> (string \<times> training_example list) list" where
  "add_example now td entry =
     (case entry of (fieldName, v) \<Rightarrow>
        (case map_of td fieldName of
           None \<Rightarrow> put fieldName [\<lparr>ex_value = v, ex_timestamp = now\<rparr>] td
         | Some examples \<Rightarrow>
             put fieldName (examples @ [\<lparr>ex_value = v, ex_timestamp = now\<rparr>]) td))"

definition addTrainingData :: "nat \<Rightarrow> engine \<Rightarrow> jsobject \<Rightarrow> engine" where
  "addTrainingData now e formData =
     e\<lparr>trainingData := foldl (add_example now) (trainingData e) formData\<rparr>"

definition getGenericPrediction :: "field \<Rightarrow> prediction" where
  "getGenericPrediction fld =
     (let fieldName = f_name fld
      in if includes_str fieldName ''email'' then
           \<lparr>p_value = JStr ''user@example.com'', p_confidence = 3 / 10,
            p_alternatives = [''user@example.com'', ''person@gmail.com''],
            p_source = ''generic''\<rparr>
         else if includes_str fieldName ''phone'' then
           \<lparr>p_value = JStr ''(555) 123-4567'', p_confidence = 3 / 10,
            p_alternatives = [''(555) 123-4567'', ''(555) 987-6543''],
            p_source = ''generic''\<rparr>
         else if includes_str fieldName ''fullName'' then
           \<lparr>p_value = JStr ''John Doe'', p_confidence = 2 / 10,
            p_alternatives = [''John Doe'', ''Jane Smith'', ''Michael Johnson''],
            p_source = ''generic''\<rparr>
         else
           \<lparr>p_value = JNull, p_confidence = 0, p_alternatives = [], p_source = ''generic''\<rparr>)"

text \<open>
  The test of the filter in the prefix branch:
  \<open>item.value && item.value.toString().toLowerCase().startsWith(partialValue.toLowerCase())\<close>.
\<close>

definition prefix_match :: "(real \<Rightarrow> string) \<Rightarrow> string \<Rightarrow> training_example \<Rightarrow> bool" where
  "prefix_match num partialValue item =
     (truthy (ex_value item) \<and>
      (case toString num (ex_value item) of
         Inl e \<Rightarrow> False
       | Inr s \<Rightarrow> starts_with (toLowerCase s) (toLowerCase partialValue)))"

text \<open>
  \<open>valueCounts\<close>: the examples counted by \<open>value.toString()\<close>, a \<open>TypeError\<close> at the first
  \<open>null\<close> or \<open>undefined\<close> value.
\<close>

fun count_values ::
  "(real \<Rightarrow> string) \<Rightarrow> training_example list \<Rightarrow> counter \<Rightarrow> error + counter" where
  "count_values num [] valueCounts = Inr valueCounts"
| "count_values num (item # items) valueCounts =
     (case toString num (ex_value item) of
        Inl e \<Rightarrow> Inl e
      | Inr s \<Rightarrow> count_values num items (bump s valueCounts))"

definition most_frequent_prediction :: "real \<Rightarrow> nat \<Rightarrow> counter \<Rightarrow> prediction" where
  "most_frequent_prediction cap n valueCounts =
     (let (maxCount, mostFrequentValue) = most_frequent valueCounts
      in \<lparr>p_value = JStr mostFrequentValue,
          p_confidence = min cap (real maxCount / real n),
          p_alternatives = take 5 (own_keys valueCounts),
          p_source = ''training-data''\<rparr>)"

definition predictFromTrainingData ::
  "(real \<Rightarrow> string) \<Rightarrow> engine \<Rightarrow> field \<Rightarrow> error + prediction" where
  "predictFromTrainingData num e fld =
     (case map_of (trainingData e) (f_name fld) of
        None \<Rightarrow> Inr (getGenericPrediction fld)
      | Some examples \<Rightarrow>
          if length examples = 0 then Inr (getGenericPrediction fld)
          else
            (let matches =
                   (case f_value fld of
                      JStr partialValue \<Rightarrow>
                        if length partialValue > 0
                        then filter (prefix_match num partialValue) examples else []
                    | _ \<Rightarrow> [])
             in if length matches > 0
                then (case count_values num matches [] of
                        Inl err \<Rightarrow> Inl err
                      | Inr valueCounts \<Rightarrow>
                          Inr (most_frequent_prediction (95 / 100) (length matches) valueCounts))
                else (case count_values num examples [] of
                        Inl err \<Rightarrow> Inl err
                      | Inr valueCounts \<Rightarrow>
                          Inr (most_frequent_prediction (9 / 10) (length examples) valueCounts))))"

text \<open>
  \<open>generateCacheKey\<close>; \<open>stringify\<close> is \<open>JSON.stringify\<close> on the context, as the template
  literal prints it.
\<close>

definition generateCacheKey :: "('c \<Rightarrow> string) \<Rightarrow> field option \<Rightarrow> 'c \<Rightarrow> string" where
  "generateCacheKey stringify fld context =
     (case fld of
        None \<Rightarrow> ''unknown''
      | Some f \<Rightarrow> f_name f @ ''-'' @ stringify context)"

text \<open>
  \<open>_setCache\<close>. At the limit the first key of the iteration goes;
  on an empty cache that key is \<open>undefined\<close> and \<open>delete\<close> removes nothing.
\<close>

definition map_delete :: "'k \<Rightarrow> ('k \<times> 'v) list \<Rightarrow> ('k \<times> 'v) list" where
  "map_delete k m = filter (\<lambda>(k', v). k' \<noteq> k) m"

definition setCache :: "engine \<Rightarrow> string \<Rightarrow> prediction \<Rightarrow> engine" where
  "setCache e key v =
     (let cache = predictionCache e;
          cache' = (if length cache \<ge> cacheSizeLimit e
                    then (case cache of
                            [] \<Rightarrow> cache
                          | (firstKey, p) # rest \<Rightarrow> map_delete firstKey cache)
                    else cache)
      in e\<lparr>predictionCache := put key v cache'\<rparr>)"

text \<open>
  \<open>predictFieldValue\<close>: the prediction or the exception, and the engine as the call
  leaves it. \<open>None\<close> is a field that is \<open>null\<close> or \<open>undefined\<close>.
\<close>

definition predictFieldValue ::
  "(real \<Rightarrow> string) \<Rightarrow> ('c \<Rightarrow> string) \<Rightarrow> engine \<Rightarrow> field option \<Rightarrow> 'c
     \<Rightarrow> (error + prediction) \<times> engine" where
  "predictFieldValue num stringify e fld context =
     (case fld of
        None \<Rightarrow>
          (Inr \<lparr>p_value = JNull, p_confidence = 0, p_alternatives = [],
                p_source = ''unknown''\<rparr>, e)
      | Some f \<Rightarrow>
          (let cacheKey = generateCacheKey stringify fld context
           in case map_of (predictionCache e) cacheKey of
                Some cached \<Rightarrow> (Inr cached, e)
              | None \<Rightarrow>
                  (case predictFromTrainingData num e f of
                     Inl err \<Rightarrow> (Inl err, e)
                   | Inr p \<Rightarrow> (Inr p, setCache e cacheKey p))))"

text \<open>The engine after a history of \<open>_setCache\<close> calls.\<close>

definition cache_after :: "engine \<Rightarrow> (string \<times> prediction) list \<Rightarrow> engine" where
  "cache_after e calls = foldl (\<lambda>e' (key, v). setCache e' key v) e calls"

text \<open>
  What every history of \<open>_setCache\<close> calls keeps: keys without repetition, and no more
  entries than the limit.
\<close>

definition cache_ok :: "engine \<Rightarrow> bool" where
  "cache_ok e = (distinct (map fst (predictionCache e)) \<and>
                 length (predictionCache e) \<le> cacheSizeLimit e)"

text \<open>
  The cache as the specification speaks of it, to compare \<open>_setCache\<close> with: the entries
  that survive, each with the number of the \<open>set\<close> call that inserted it, kept in no
  particular order (a new entry is put in front). At capacity \<open>spec_set\<close> first drops the
  entry that was inserted earliest; then it stores: a key that is held takes the new value
  and keeps its time of insertion, a key that is not held is inserted now.
  \<open>by_insertion\<close> lists the entries from the earliest inserted to the latest.
\<close>

record slot =
  slot_key :: string
  slot_value :: prediction
  inserted :: nat

definition earliest :: "slot list \<Rightarrow> nat" where
  "earliest es = Min (set (map inserted es))"

definition spec_set :: "nat \<Rightarrow> nat \<Rightarrow> slot list \<Rightarrow> string \<Rightarrow> prediction \<Rightarrow> slot list" where
  "spec_set limit now es key v =
     (let kept = (if length es \<ge> limit then filter (\<lambda>s. inserted s \<noteq> earliest es) es else es)
      in if key \<in> set (map slot_key kept)
         then map (\<lambda>s. if slot_key s = key then s\<lparr>slot_value := v\<rparr> else s) kept
         else \<lparr>slot_key = key, slot_value = v, inserted = now\<rparr> # kept)"

fun spec_run :: "nat \<Rightarrow> nat \<Rightarrow> slot list \<Rightarrow> (string \<times> prediction) list \<Rightarrow> slot list" where
  "spec_run limit now es [] = es"
| "spec_run limit now es ((key, v) # calls) =
     spec_run limit (Suc now) (spec_set limit now es key v) calls"

definition spec_cache_after :: "nat \<Rightarrow> (string \<times> prediction) list \<Rightarrow> slot list" where
  "spec_cache_after limit calls = spec_run limit 0 [] calls"

definition by_insertion :: "slot list \<Rightarrow> (string \<times> prediction) list" where
  "by_insertion es = map (\<lambda>s. (slot_key s, slot_value s)) (sort_key inserted es)"

section \<open>SmartFormPredictor: the patterns and the suggestions\<close>

text \<open>
  \<open>patterns\<close> is a \<open>Map\<close> from a field name to a \<open>Set\<close> of values; a \<open>Set\<close> is the list of
  its members in the order of insertion. \<open>maxSuggestions\<close> is
  \<open>config.prediction.maxSuggestions\<close>, \<open>None\<close> when the options replace \<open>prediction\<close> by an
  object that does not define it.
\<close>

definition set_add :: "'a \<Rightarrow> 'a list \<Rightarrow> 'a list" where
  "set_add v s = (if v \<in> set s then s else s @ [v])"

record predictor =
  patterns :: "(string \<times> jsval list) list"
  maxSuggestions :: "int option"

text \<open>
  The constructor; \<open>prediction_option\<close> is \<open>options.prediction\<close> reduced to its
  \<open>maxSuggestions\<close>, \<open>None\<close> when the options have no \<open>prediction\<close>.
\<close>

definition new_predictor :: "int option option \<Rightarrow> predictor" where
  "new_predictor prediction_option =
     \<lparr>patterns = [],
      maxSuggestions = (case prediction_option of None \<Rightarrow> Some 3 | Some m \<Rightarrow> m)\<rparr>"

definition update_pattern ::
  "(string \<times> jsval list) list \<Rightarrow> string \<times> jsval \<Rightarrow> (string \<times> jsval list) list" where
  "update_pattern pats entry =
     (case entry of (fieldName, v) \<Rightarrow>
        (case map_of pats fieldName of
           None \<Rightarrow> put fieldName (set_add v []) pats
         | Some fieldPatterns \<Rightarrow> put fieldName (set_add v fieldPatterns) pats))"

definition updatePatterns :: "predictor \<Rightarrow> jsobject \<Rightarrow> predictor" where
  "updatePatterns p formData = p\<lparr>patterns := foldl update_pattern (patterns p) formData\<rparr>"

text \<open>
  The loop of \<open>getSuggestions\<close>: \<open>pattern.startsWith\<close> is a \<open>TypeError\<close> on a value that is
  not a string.
\<close>

fun matching_patterns :: "string \<Rightarrow> jsval list \<Rightarrow> error + string list" where
  "matching_patterns partialValue [] = Inr []"
| "matching_patterns partialValue (JStr pattern # rest) =
     (case matching_patterns partialValue rest of
        Inl e \<Rightarrow> Inl e
      | Inr suggestions \<Rightarrow>
          Inr (if starts_with pattern partialValue then pattern # suggestions
               else suggestions))"
| "matching_patterns partialValue (v # rest) = Inl TypeError"

text \<open>\<open>xs.slice(0, end)\<close> for an integer or undefined \<open>end\<close>.\<close>

fun slice_to :: "int option \<Rightarrow> 'a list \<Rightarrow> 'a list" where
  "slice_to None xs = xs"
| "slice_to (Some n) xs =
     (if n < 0 then take (nat (int (length xs) + n)) xs else take (nat n) xs)"

definition getSuggestions :: "predictor \<Rightarrow> string \<Rightarrow> string \<Rightarrow> error + string list" where
  "getSuggestions p fld partialValue =
     (case map_of (patterns p) fld of
        None \<Rightarrow> Inr (slice_to (maxSuggestions p) [])
      | Some fieldPatterns \<Rightarrow>
          (case matching_patterns partialValue fieldPatterns of
             Inl e \<Rightarrow> Inl e
           | Inr suggestions \<Rightarrow> Inr (slice_to (maxSuggestions p) suggestions)))"

text \<open>The predictor after a history of \<open>_updatePatterns\<close> calls on a new one.\<close>

definition patterns_after :: "int option option \<Rightarrow> jsobject list \<Rightarrow> predictor" where
  "patterns_after prediction_option forms =
     foldl updatePatterns (new_predictor prediction_option) forms"

text \<open>The values that \<open>patterns\<close> holds for a field, none when it has no entry.\<close>

definition stored :: "(string \<times> jsval list) list \<Rightarrow> string \<Rightarrow> jsval list" where
  "stored pats fld = (case map_of pats fld of None \<Rightarrow> [] | Some vs \<Rightarrow> vs)"

section \<open>FieldRelationshipGraph: nodes and edges\<close>

record node =
  n_name :: string
  n_type :: string
  connections :: "string list"

record graph =
  nodes :: "(string \<times> node) list"
  edges :: "(string \<times> jsobject) list"

definition new_graph :: graph where
  "new_graph = \<lparr>nodes = [], edges = []\<rparr>"

definition typePatterns :: "(string \<times> string list) list" where
  "typePatterns =
     [(''email'', [''email'', ''mail'']),
      (''phone'', [''phone'', ''tel'', ''mobile'']),
      (''date'', [''date'', ''birthday'', ''dob'']),
      (''name'', [''name'', ''first'', ''last'']),
      (''address'', [''address'', ''street'', ''addr'']),
      (''city'', [''city'']),
      (''zip'', [''zip'', ''postal'']),
      (''country'', [''country'']),
      (''number'', [''number'', ''count'', ''qty''])]"

fun first_type :: "string \<Rightarrow> (string \<times> string list) list \<Rightarrow> string" where
  "first_type fieldName [] = ''text''"
| "first_type fieldName ((t, pats) # rest) =
     (if list_ex (\<lambda>pattern. includes_str (toLowerCase fieldName) pattern) pats then t
      else first_type fieldName rest)"

definition inferFieldType :: "string \<Rightarrow> string" where
  "inferFieldType fieldName = first_type fieldName (own_entries typePatterns)"

definition addNode :: "graph \<Rightarrow> string \<Rightarrow> graph" where
  "addNode g fieldName =
     (case map_of (nodes g) fieldName of
        Some n \<Rightarrow> g
      | None \<Rightarrow>
          g\<lparr>nodes := put fieldName
                \<lparr>n_name = fieldName, n_type = inferFieldType fieldName, connections = []\<rparr>
                (nodes g)\<rparr>)"

text \<open>\<open>this.nodes.get(a).connections.add(b)\<close>: the node object is changed in place.\<close>

definition connect :: "string \<Rightarrow> string \<Rightarrow> (string \<times> node) list \<Rightarrow> (string \<times> node) list" where
  "connect a b ns =
     map (\<lambda>(k, n). if k = a then (k, n\<lparr>connections := set_add b (connections n)\<rparr>) else (k, n)) ns"

text \<open>The object literal \<open>{from, to, ...relationData}\<close>.\<close>

definition edge_object :: "string \<Rightarrow> string \<Rightarrow> jsobject \<Rightarrow> jsobject" where
  "edge_object fromField toField relationData =
     foldl (\<lambda>obj (k, v). put k v obj)
       [(''from'', JStr fromField), (''to'', JStr toField)] relationData"

definition addEdge :: "graph \<Rightarrow> string \<Rightarrow> string \<Rightarrow> jsobject \<Rightarrow> graph" where
  "addEdge g fromField toField relationData =
     (let g1 = addNode (addNode g fromField) toField;
          edgeKey = fromField @ ''-'' @ toField
      in case map_of (edges g1) edgeKey of
           Some e \<Rightarrow> g1
         | None \<Rightarrow>
             g1\<lparr>edges := put edgeKey (edge_object fromField toField relationData) (edges g1),
                nodes := connect toField fromField (connect fromField toField (nodes g1))\<rparr>)"

text \<open>A history of calls on a new graph.\<close>

datatype graph_call = AddNode string | AddEdge string string jsobject

fun graph_step :: "graph \<Rightarrow> graph_call \<Rightarrow> graph" where
  "graph_step g (AddNode fieldName) = addNode g fieldName"
| "graph_step g (AddEdge fromField toField relationData) =
     addEdge g fromField toField relationData"

definition graph_after :: "graph_call list \<Rightarrow> graph" where
  "graph_after calls = foldl graph_step new_graph calls"

section \<open>FieldValidator\<close>

text \<open>
  What the validator asks of the host: \<open>Number.prototype.toString\<close>, whether \<open>new URL(s)\<close>
  succeeds, whether \<open>Number(s)\<close> and \<open>Date.parse(s)\<close> are numbers, and
  \<open>new RegExp(pattern).test(s)\<close>, \<open>None\<close> when the pattern is not a regular expression
  and the constructor throws.
\<close>

record host =
  number_to_string :: "real \<Rightarrow> string"
  parses_as_url :: "string \<Rightarrow> bool"
  parses_as_number :: "string \<Rightarrow> bool"
  parses_as_date :: "string \<Rightarrow> bool"
  regexp_test :: "string \<Rightarrow> string \<Rightarrow> bool option"

text \<open>\<open>String(v)\<close>, the conversion that \<open>test\<close>, \<open>URL\<close> and \<open>Date.parse\<close> apply.\<close>

fun to_str :: "host \<Rightarrow> jsval \<Rightarrow> string" where
  "to_str h (JStr s) = s"
| "to_str h (JNum x) = number_to_string h x"
| "to_str h (JBool b) = (if b then ''true'' else ''false'')"
| "to_str h JNull = ''null''"
| "to_str h JUndefined = ''undefined''"

text \<open>The guard \<open>value === null || value === undefined || value === ''\<close>.\<close>

definition is_empty_value :: "jsval \<Rightarrow> bool" where
  "is_empty_value v = (v = JNull \<or> v = JUndefined \<or> v = JStr '''')"

text \<open>
  \<open>/^[^\s@]+@[^\s@]+\.[^\s@]+$/\<close>: no white space, one \<open>@\<close> with something before it,
  and after it a dot that is neither its first nor its last character.
\<close>

definition email_regex_test :: "string \<Rightarrow> bool" where
  "email_regex_test s =
     (case split_on CHR ''@'' s of
        [local_part, domain] \<Rightarrow>
          local_part \<noteq> [] \<and> \<not> list_ex is_space s \<and> CHR ''.'' \<in> set (butlast (tl domain))
      | _ \<Rightarrow> False)"

text \<open>\<open>/^[\+]?[\d\s\-\(\)]{10,}$/\<close>.\<close>

definition phone_char :: "char \<Rightarrow> bool" where
  "phone_char c = (is_digit c \<or> is_space c \<or> c = CHR ''-'' \<or> c = CHR ''('' \<or> c = CHR '')'')"

definition phone_regex_test :: "string \<Rightarrow> bool" where
  "phone_regex_test s =
     (let body = (case s of [] \<Rightarrow> [] | c # cs \<Rightarrow> if c = CHR ''+'' then cs else s)
      in length body \<ge> 10 \<and> list_all phone_char body)"

definition validateEmail :: "host \<Rightarrow> jsval \<Rightarrow> bool" where
  "validateEmail h v = (if is_empty_value v then True else email_regex_test (to_str h v))"

definition validatePhone :: "host \<Rightarrow> jsval \<Rightarrow> bool" where
  "validatePhone h v = (if is_empty_value v then True else phone_regex_test (to_str h v))"

definition validateUrl :: "host \<Rightarrow> jsval \<Rightarrow> bool" where
  "validateUrl h v = (if is_empty_value v then True else parses_as_url h (to_str h v))"

text \<open>\<open>Number(v)\<close> is a number for every number and boolean.\<close>

definition validateNumber :: "host \<Rightarrow> jsval \<Rightarrow> bool" where
  "validateNumber h v =
     (if is_empty_value v then True
      else (case v of JStr s \<Rightarrow> parses_as_number h s | _ \<Rightarrow> True))"

definition validateDate :: "host \<Rightarrow> jsval \<Rightarrow> bool" where
  "validateDate h v = (if is_empty_value v then True else parses_as_date h (to_str h v))"

definition validateRequired :: "host \<Rightarrow> jsval \<Rightarrow> bool" where
  "validateRequired h v =
     (if v = JNull \<or> v = JUndefined then False else trim (to_str h v) \<noteq> '''')"

definition validatePattern :: "host \<Rightarrow> jsval \<Rightarrow> string \<Rightarrow> bool" where
  "validatePattern h v pattern =
     (if is_empty_value v then True
      else (case regexp_test h pattern (to_str h v) of None \<Rightarrow> True | Some b \<Rightarrow> b))"

definition validateMinLength :: "host \<Rightarrow> jsval \<Rightarrow> int \<Rightarrow> bool" where
  "validateMinLength h v minLength =
     (if is_empty_value v then True else int (length (to_str h v)) \<ge> minLength)"

definition validateMaxLength :: "host \<Rightarrow> jsval \<Rightarrow> int \<Rightarrow> bool" where
  "validateMaxLength h v maxLength =
     (if is_empty_value v then True else int (length (to_str h v)) \<le> maxLength)"

text \<open>
  \<open>this.rules\<close>: a plain object from rule names to functions. A rule is one of the six of
  the constructor or a function that \<open>addRule\<close> stored, read as the truth value of what it
  returns.
\<close>

datatype rule =
  Rule_email | Rule_phone | Rule_url | Rule_number | Rule_date | Rule_required
| Rule_custom "jsval \<Rightarrow> bool"

fun apply_rule :: "host \<Rightarrow> rule \<Rightarrow> jsval \<Rightarrow> bool" where
  "apply_rule h Rule_email v = validateEmail h v"
| "apply_rule h Rule_phone v = validatePhone h v"
| "apply_rule h Rule_url v = validateUrl h v"
| "apply_rule h Rule_number v = validateNumber h v"
| "apply_rule h Rule_date v = validateDate h v"
| "apply_rule h Rule_required v = validateRequired h v"
| "apply_rule h (Rule_custom f) v = f v"

type_synonym rules = "(string \<times> rule) list"

definition new_validator :: rules where
  "new_validator =
     [(''email'', Rule_email), (''phone'', Rule_phone), (''url'', Rule_url),
      (''number'', Rule_number), (''date'', Rule_date), (''required'', Rule_required)]"

text \<open>
  \<open>addRule\<close>; \<open>None\<close> is a validator that is not a function. Writing the name
  \<open>__proto__\<close> replaces the prototype of the table.
\<close>

definition addRule :: "rules \<Rightarrow> string \<Rightarrow> (jsval \<Rightarrow> bool) option \<Rightarrow> error + rules" where
  "addRule rs ruleName validator =
     (case validator of
        None \<Rightarrow> Inl (Thrown ''Validator must be a function'')
      | Some f \<Rightarrow>
          if ruleName = ''__proto__'' then Inl Builtin_property
          else Inr (put ruleName (Rule_custom f) rs))"

text \<open>Decimal digits of an integer, as a template literal prints it.\<close>

function show_nat :: "nat \<Rightarrow> string" where
  "show_nat n =
     (if n < 10 then [''0123456789'' ! n]
      else show_nat (n div 10) @ [''0123456789'' ! (n mod 10)])"
  by pat_completeness auto
termination
  by (relation "measure id") auto

definition show_int :: "int \<Rightarrow> string" where
  "show_int i = (if i < 0 then CHR ''-'' # show_nat (nat (- i)) else show_nat (nat i))"

text \<open>
  The field that \<open>validate\<close> reads. A property that is absent reads as the falsy value of
  its type: the empty string, \<open>False\<close>, 0.
\<close>

record vfield =
  v_name :: string
  v_id :: string
  v_type :: string
  v_required :: bool
  v_pattern :: string
  v_minLength :: int
  v_maxLength :: int

record validation =
  rule_name :: string
  valid :: bool
  message :: string

record validation_result =
  r_valid :: bool
  r_validations :: "validation list"
  r_errors :: "string list"

definition getNameBasedValidation :: "host \<Rightarrow> string \<Rightarrow> jsval \<Rightarrow> validation option" where
  "getNameBasedValidation h fieldName v =
     (let lowerName = toLowerCase fieldName
      in if includes_str lowerName ''email'' then
           Some \<lparr>rule_name = ''email'', valid = validateEmail h v,
                 message = ''Please enter a valid email address''\<rparr>
         else if includes_str lowerName ''phone'' \<or> includes_str lowerName ''tel'' then
           Some \<lparr>rule_name = ''phone'', valid = validatePhone h v,
                 message = ''Please enter a valid phone number''\<rparr>
         else if includes_str lowerName ''url'' \<or> includes_str lowerName ''website'' then
           Some \<lparr>rule_name = ''url'', valid = validateUrl h v,
                 message = ''Please enter a valid URL''\<rparr>
         else if includes_str lowerName ''number'' \<or> includes_str lowerName ''count''
                 \<or> includes_str lowerName ''amount'' then
           Some \<lparr>rule_name = ''number'', valid = validateNumber h v,
                 message = ''Please enter a valid number''\<rparr>
         else None)"

text \<open>
  The rule that \<open>this.rules[name]\<close> reads and the code then calls: the rule the table owns;
  none for a name that nothing defines; for a name of \<open>Object.prototype\<close> that the table
  does not own the inherited member, where the embedding stops.
\<close>

definition rule_for :: "rules \<Rightarrow> string \<Rightarrow> error + rule option" where
  "rule_for rs name =
     (case map_of rs name of
        Some r \<Rightarrow> Inr (Some r)
      | None \<Rightarrow> if name \<in> set proto_names then Inl Builtin_property else Inr None)"

text \<open>
  The validations of \<open>validate\<close> in the order the code pushes them. \<open>this.rules.required\<close>
  is called when the field is required: a \<open>TypeError\<close> if the table has no such rule.
\<close>

definition required_validations ::
  "host \<Rightarrow> rules \<Rightarrow> vfield \<Rightarrow> string \<Rightarrow> jsval \<Rightarrow> error + validation list" where
  "required_validations h rs fld fieldName v =
     (if v_required fld then
        (case map_of rs ''required'' of
           Some r \<Rightarrow> Inr [\<lparr>rule_name = ''required'', valid = apply_rule h r v,
                           message = fieldName @ '' is required''\<rparr>]
         | None \<Rightarrow> Inl TypeError)
      else Inr [])"

definition attribute_validations :: "host \<Rightarrow> vfield \<Rightarrow> string \<Rightarrow> jsval \<Rightarrow> validation list" where
  "attribute_validations h fld fieldName v =
     (if v_pattern fld \<noteq> [] then
        [\<lparr>rule_name = ''pattern'', valid = validatePattern h v (v_pattern fld),
          message = fieldName @ '' does not match the required pattern''\<rparr>]
      else [])
     @ (if v_minLength fld \<noteq> 0 then
          [\<lparr>rule_name = ''minLength'', valid = validateMinLength h v (v_minLength fld),
            message = fieldName @ '' must be at least '' @ show_int (v_minLength fld)
                        @ '' characters''\<rparr>]
        else [])
     @ (if v_maxLength fld \<noteq> 0 then
          [\<lparr>rule_name = ''maxLength'', valid = validateMaxLength h v (v_maxLength fld),
            message = fieldName @ '' must be no more than '' @ show_int (v_maxLength fld)
                        @ '' characters''\<rparr>]
        else [])"

definition type_validations ::
  "host \<Rightarrow> rules \<Rightarrow> string \<Rightarrow> string \<Rightarrow> jsval \<Rightarrow> error + validation list" where
  "type_validations h rs fieldType fieldName v =
     (case rule_for rs fieldType of
        Inl e \<Rightarrow> Inl e
      | Inr None \<Rightarrow> Inr []
      | Inr (Some r) \<Rightarrow>
          Inr [\<lparr>rule_name = fieldType, valid = apply_rule h r v,
                message = fieldName @ '' is not a valid '' @ fieldType\<rparr>])"

definition validate :: "host \<Rightarrow> rules \<Rightarrow> vfield \<Rightarrow> jsval \<Rightarrow> error + validation_result" where
  "validate h rs fld v =
     (let fieldName = (if v_name fld \<noteq> [] then v_name fld
                       else if v_id fld \<noteq> [] then v_id fld else ''unknown'');
          fieldType = (if v_type fld \<noteq> [] then v_type fld else ''text'')
      in case required_validations h rs fld fieldName v of
           Inl e \<Rightarrow> Inl e
         | Inr required_part \<Rightarrow>
             (case type_validations h rs fieldType fieldName v of
                Inl e \<Rightarrow> Inl e
              | Inr type_part \<Rightarrow>
                  (let validations =
                         required_part @ attribute_validations h fld fieldName v @ type_part
                         @ (case getNameBasedValidation h fieldName v of
                              None \<Rightarrow> []
                            | Some nameBasedValidation \<Rightarrow> [nameBasedValidation])
                   in Inr \<lparr>r_valid = list_all valid validations,
                           r_validations = validations,
                           r_errors = map message (filter (\<lambda>x. \<not> valid x) validations)\<rparr>)))"

text \<open>
  The rule that the type of a field selects is one of the five type rules, or the type
  selects no rule. (The rules that are left: \<open>required\<close>, a rule that \<open>addRule\<close> stored,
  and a member of \<open>Object.prototype\<close>.)
\<close>

definition type_rule_accepts_empty :: "rules \<Rightarrow> vfield \<Rightarrow> bool" where
  "type_rule_accepts_empty rs fld =
     (rule_for rs (if v_type fld \<noteq> [] then v_type fld else ''text'')
        \<in> Inr ` ({None} \<union> Some ` {Rule_email, Rule_phone, Rule_url, Rule_number, Rule_date}))"

section \<open>Properties of the insertion-ordered tables\<close>

lemma map_of_put: "map_of (put k v al) = (map_of al)(k \<mapsto> v)"
  by (induction al) (auto simp: fun_eq_iff)

lemma obj_get_obj_set: "obj_get (obj_set obj k v) k' = (if k' = k then v else obj_get obj k')"
  by (simp add: obj_get_def obj_set_def map_of_put)

lemma keys_put_present: "k \<in> set (map fst al) \<Longrightarrow> map fst (put k v al) = map fst al"
proof (induction al)
  case Nil
  then show ?case by simp
next
  case (Cons a al)
  show ?case
  proof (cases "fst a = k")
    case True
    then show ?thesis by (cases a) simp
  next
    case False
    with Cons.prems have "k \<in> set (map fst al)" by auto
    with Cons.IH False show ?thesis by (cases a) simp
  qed
qed

lemma put_absent: "k \<notin> set (map fst al) \<Longrightarrow> put k v al = al @ [(k, v)]"
  by (induction al) auto

lemma distinct_put: "distinct (map fst al) \<Longrightarrow> distinct (map fst (put k v al))"
  by (cases "k \<in> set (map fst al)") (simp_all add: keys_put_present put_absent)

lemma length_put_le: "length (put k v al) \<le> Suc (length al)"
  by (induction al) auto

section \<open>Properties of PrivacyPreservingLearner\<close>

lemma generalize_field_get:
  "obj_get (generalize_field record k f copy) k' =
     (if k' = k \<and> obj_get record k \<noteq> JUndefined then f (obj_get record k) else obj_get copy k')"
  by (simp add: generalize_field_def obj_get_obj_set)

text \<open>
  C1, as the claim states it, fails on the class of the source module: a record with the
  numeric age 45 and a numeric income leaves \<open>generalizeSensitiveFields\<close> as it came in, the
  age is not replaced by \<open>middle-aged\<close>.
\<close>

theorem generalize_source_keeps_age:
  "generalizeSensitiveFields Source_module
     [Rec [(''age'', JNum 45), (''income'', JNum 50000), (''email'', JStr ''a@b.c'')]]
   = [Rec [(''age'', JNum 45), (''income'', JNum 50000), (''email'', JStr ''a@b.c'')]]"
  by (simp add: generalizeSensitiveFields_def generalize_field_def obj_get_def obj_set_def)

text \<open>
  C1, amended. \<open>generalizeSensitiveFields\<close> returns one element for each element of the
  data, and a record goes to a record whose \<open>email\<close> and \<open>phone\<close> are those of the input.
  In the class of the bundle the \<open>age\<close> of the result is \<open>generalizeAge\<close> of the input's and
  the \<open>income\<close> is \<open>generalizeIncome\<close> of the input's: a number goes to its bucket label, 45
  to \<open>middle-aged\<close> and 70 to \<open>elderly\<close>. In the class of the source module \<open>age\<close> and
  \<open>income\<close> are those of the input.
\<close>

theorem generalize_buckets_and_contact_fields:
  "length (generalizeSensitiveFields b data) = length data \<and>
   generalizeAge (JNum 45) = JStr ''middle-aged'' \<and>
   generalizeAge (JNum 70) = JStr ''elderly'' \<and>
   generalizeAge (JNum a)
     \<in> JStr ` {''minor'', ''young-adult'', ''middle-aged'', ''senior'', ''elderly''} \<and>
   generalizeIncome (JNum a) \<in> JStr ` {''low'', ''medium'', ''high'', ''very-high''} \<and>
   (\<forall>i r. i < length data \<and> data ! i = Rec r \<longrightarrow>
      (\<exists>r'. generalizeSensitiveFields b data ! i = Rec r' \<and>
            obj_get r' ''email'' = obj_get r ''email'' \<and>
            obj_get r' ''phone'' = obj_get r ''phone'' \<and>
            (b = Bundle \<longrightarrow>
               obj_get r' ''age'' = generalizeAge (obj_get r ''age'') \<and>
               obj_get r' ''income'' = generalizeIncome (obj_get r ''income'')) \<and>
            (b = Source_module \<longrightarrow>
               obj_get r' ''age'' = obj_get r ''age'' \<and>
               obj_get r' ''income'' = obj_get r ''income'')))"
proof -
  have rec: "\<exists>r'. generalize_record b (Rec r) = Rec r' \<and>
            obj_get r' ''email'' = obj_get r ''email'' \<and>
            obj_get r' ''phone'' = obj_get r ''phone'' \<and>
            (b = Bundle \<longrightarrow>
               obj_get r' ''age'' = generalizeAge (obj_get r ''age'') \<and>
               obj_get r' ''income'' = generalizeIncome (obj_get r ''income'')) \<and>
            (b = Source_module \<longrightarrow>
               obj_get r' ''age'' = obj_get r ''age'' \<and>
               obj_get r' ''income'' = obj_get r ''income'')" for r
    by (cases b) (simp_all add: generalize_field_get)
  have labels: "generalizeAge (JNum a)
       \<in> JStr ` {''minor'', ''young-adult'', ''middle-aged'', ''senior'', ''elderly''}"
    "generalizeIncome (JNum a) \<in> JStr ` {''low'', ''medium'', ''high'', ''very-high''}"
    by simp_all
  show ?thesis
    using rec labels by (simp add: generalizeSensitiveFields_def)
qed

theorem generalize_buckets_and_contact_fields_witness:
  "generalizeSensitiveFields Bundle
     [Val (JNum 3),
      Rec [(''age'', JNum 45), (''email'', JStr ''a@b.c''), (''phone'', JStr ''(555) 123-4567''),
           (''income'', JNum 50000)]]
   = [Val (JNum 3),
      Rec [(''age'', JStr ''middle-aged''), (''email'', JStr ''a@b.c''),
           (''phone'', JStr ''(555) 123-4567''), (''income'', JStr ''medium'')]] \<and>
   length (generalizeSensitiveFields Bundle
     [Val (JNum 3),
      Rec [(''age'', JNum 45), (''email'', JStr ''a@b.c''), (''phone'', JStr ''(555) 123-4567''),
           (''income'', JNum 50000)]]) = 2"
  using generalize_buckets_and_contact_fields [of Bundle
     "[Val (JNum 3),
      Rec [(''age'', JNum 45), (''email'', JStr ''a@b.c''), (''phone'', JStr ''(555) 123-4567''),
           (''income'', JNum 50000)]]" 45]
  by (simp add: generalizeSensitiveFields_def generalize_field_def obj_get_def obj_set_def)

text \<open>
  The rounding of the doubles on the non-negative numbers: \<open>binary64\<close> is monotone
  (\<open>binary64_mono\<close>), returns its own results as they are (\<open>binary64_idem\<close>), moves a number by
  at most half the spacing of its binade (\<open>binary64_error\<close>), and rounds every sum between 1
  and \<open>1 + 2\<^sup>-\<^sup>5\<^sup>4\<close> to 1 (\<open>binary64_absorbs\<close>).
\<close>

lemma rhe_bounds: "\<lfloor>x\<rfloor> \<le> round_half_even x \<and> round_half_even x \<le> \<lfloor>x\<rfloor> + 1"
  by (simp add: round_half_even_def Let_def)

lemma rhe_of_int: "round_half_even (of_int n) = n"
  by (simp add: round_half_even_def Let_def)

lemma rhe_mono:
  assumes "x \<le> y"
  shows "round_half_even x \<le> round_half_even y"
proof (cases "\<lfloor>x\<rfloor> = \<lfloor>y\<rfloor>")
  case True
  with assms show ?thesis by (auto simp: round_half_even_def Let_def)
next
  case False
  with assms have "\<lfloor>x\<rfloor> < \<lfloor>y\<rfloor>" using floor_mono[of x y] by simp
  with rhe_bounds[of x] rhe_bounds[of y] show ?thesis by simp
qed

lemma rhe_error: "\<bar>of_int (round_half_even x) - x\<bar> \<le> 1 / 2"
proof -
  have "of_int \<lfloor>x\<rfloor> \<le> x" "x < of_int \<lfloor>x\<rfloor> + 1" by linarith+
  then show ?thesis by (auto simp: round_half_even_def Let_def)
qed

lemma binary64_spacing:
  "binary64 x = (if x = 0 then 0 else of_int (round_half_even (x / spacing x)) * spacing x)"
  by (simp add: binary64_def)

lemma spacing_pos: "0 < spacing x"
  by (simp add: spacing_def)

lemma exponent_bounds:
  assumes "0 < x"
  shows "x < 2 powr of_int (exponent x + 1)"
    and "- 1022 < exponent x \<Longrightarrow> 2 powr of_int (exponent x) \<le> x"
    and "- 1022 \<le> exponent x"
proof -
  define k where "k = \<lfloor>log 2 x\<rfloor>"
  have e: "exponent x = max k (- 1022)" using assms by (simp add: exponent_def k_def)
  from floor_log_eq_powr_iff[of x 2 k] assms
  have b: "2 powr of_int k \<le> x" "x < 2 powr of_int (k + 1)" by (simp_all add: k_def)
  have "(2::real) powr of_int (k + 1) \<le> 2 powr of_int (exponent x + 1)"
    by (rule powr_mono) (simp_all add: e)
  with b(2) show "x < 2 powr of_int (exponent x + 1)" by (rule less_le_trans)
  show "- 1022 \<le> exponent x" by (simp add: e)
  show "2 powr of_int (exponent x) \<le> x" if "- 1022 < exponent x"
  proof -
    from that e have "exponent x = k" by (simp add: max_def split: if_splits)
    with b(1) show ?thesis by simp
  qed
qed

lemma exponent_eq:
  assumes "0 < x" and "- 1022 \<le> e" and "e = - 1022 \<or> 2 powr of_int e \<le> x"
    and "x < 2 powr of_int (e + 1)"
  shows "exponent x = e"
proof -
  define k where "k = \<lfloor>log 2 x\<rfloor>"
  have ex: "exponent x = max k (- 1022)" using assms(1) by (simp add: exponent_def k_def)
  from floor_log_eq_powr_iff[of x 2 k] assms(1)
  have b: "2 powr of_int k \<le> x" "x < 2 powr of_int (k + 1)" by (simp_all add: k_def)
  show ?thesis
  proof (cases "2 powr of_int e \<le> x")
    case True
    with assms(1,4) floor_log_eq_powr_iff[of x 2 e] have "k = e" by (simp add: k_def)
    with assms(2) show ?thesis by (simp add: ex)
  next
    case False
    with assms(3) have e: "e = - 1022" by simp
    from False b(1) have "(2::real) powr of_int k < 2 powr of_int e" by linarith
    then have "real_of_int k < real_of_int e" by (simp only: powr_less_cancel_iff one_less_numeral_iff semiring_norm)
    then have "k < e" by simp
    with e show ?thesis by (simp add: ex)
  qed
qed

lemma exponent_mono:
  assumes "0 < x" and "x \<le> y"
  shows "exponent x \<le> exponent y"
proof -
  from assms have "log 2 x \<le> log 2 y" by simp
  then have "\<lfloor>log 2 x\<rfloor> \<le> \<lfloor>log 2 y\<rfloor>" by (rule floor_mono)
  with assms show ?thesis by (simp add: exponent_def)
qed

lemma binary64_nonneg:
  assumes "0 \<le> x"
  shows "0 \<le> binary64 x"
proof -
  have "0 \<le> x / spacing x" using assms spacing_pos[of x] by simp
  from rhe_mono[OF this] have "0 \<le> round_half_even (x / spacing x)"
    using rhe_of_int[of 0] by simp
  then show ?thesis using spacing_pos[of x] by (simp add: binary64_spacing)
qed

lemma binary64_upper:
  assumes "0 < x"
  shows "binary64 x \<le> 2 powr of_int (exponent x + 1)"
proof -
  have split: "(2::real) powr of_int (exponent x + 1) = 2 ^ 53 * spacing x"
  proof -
    have "real_of_int (exponent x + 1) = real_of_int (exponent x - 52) + 53" by simp
    then have "(2::real) powr of_int (exponent x + 1) = 2 powr (of_int (exponent x - 52) + 53)"
      by (simp only:)
    also have "\<dots> = 2 powr of_int (exponent x - 52) * 2 powr 53"
      by (rule powr_add)
    finally show ?thesis by (simp add: spacing_def)
  qed
  from exponent_bounds(1)[OF assms] have "x < 2 ^ 53 * spacing x" by (simp only: split)
  then have "x / spacing x \<le> of_int (2 ^ 53)"
    using spacing_pos[of x] by (simp add: field_simps)
  from rhe_mono[OF this] have "round_half_even (x / spacing x) \<le> 2 ^ 53"
    by (simp only: rhe_of_int)
  then have "(of_int (round_half_even (x / spacing x)) :: real) \<le> 2 ^ 53"
    by (metis of_int_le_iff of_int_numeral of_int_power)
  then have "of_int (round_half_even (x / spacing x)) * spacing x \<le> 2 ^ 53 * spacing x"
    using spacing_pos[of x] by simp
  moreover have "binary64 x = of_int (round_half_even (x / spacing x)) * spacing x"
    using assms by (simp add: binary64_spacing)
  ultimately show ?thesis by (simp only: split)
qed

lemma binary64_lower:
  assumes "0 < x" and "- 1022 < exponent x"
  shows "2 powr of_int (exponent x) \<le> binary64 x"
proof -
  have split: "(2::real) powr of_int (exponent x) = 2 ^ 52 * spacing x"
  proof -
    have "real_of_int (exponent x) = real_of_int (exponent x - 52) + 52" by simp
    then have "(2::real) powr of_int (exponent x) = 2 powr (of_int (exponent x - 52) + 52)"
      by (simp only:)
    also have "\<dots> = 2 powr of_int (exponent x - 52) * 2 powr 52"
      by (rule powr_add)
    finally show ?thesis by (simp add: spacing_def)
  qed
  from exponent_bounds(2)[OF assms] have "2 ^ 52 * spacing x \<le> x" by (simp only: split)
  then have "of_int (2 ^ 52) \<le> x / spacing x"
    using spacing_pos[of x] by (simp add: field_simps)
  from rhe_mono[OF this] have "2 ^ 52 \<le> round_half_even (x / spacing x)"
    by (simp only: rhe_of_int)
  then have "(2 ^ 52 :: real) \<le> of_int (round_half_even (x / spacing x))"
    by (metis of_int_le_iff of_int_numeral of_int_power)
  then have "2 ^ 52 * spacing x \<le> of_int (round_half_even (x / spacing x)) * spacing x"
    using spacing_pos[of x] by simp
  moreover have "binary64 x = of_int (round_half_even (x / spacing x)) * spacing x"
    using assms by (simp add: binary64_spacing)
  ultimately show ?thesis by (simp only: split)
qed

lemma binary64_mono:
  assumes "0 \<le> x" and "x \<le> y"
  shows "binary64 x \<le> binary64 y"
proof (cases "x = 0")
  case True
  with assms binary64_nonneg[of y] show ?thesis by (simp add: binary64_def)
next
  case False
  with assms have x: "0 < x" and y: "0 < y" by simp_all
  from exponent_mono[OF x assms(2)] have le: "exponent x \<le> exponent y" .
  show ?thesis
  proof (cases "exponent x = exponent y")
    case True
    then have s: "spacing x = spacing y" by (simp add: spacing_def)
    from assms(2) have "x / spacing y \<le> y / spacing y"
      using spacing_pos[of y] by (simp add: divide_right_mono)
    from rhe_mono[OF this]
    have "of_int (round_half_even (x / spacing y)) * spacing y
        \<le> of_int (round_half_even (y / spacing y)) * spacing y"
      using spacing_pos[of y] by simp
    with x y s show ?thesis by (simp add: binary64_spacing)
  next
    case False
    with le have lt: "exponent x + 1 \<le> exponent y" by simp
    from exponent_bounds(3)[OF x] lt have "- 1022 < exponent y" by simp
    from binary64_lower[OF y this] have "2 powr of_int (exponent y) \<le> binary64 y" .
    moreover have "(2::real) powr of_int (exponent x + 1) \<le> 2 powr of_int (exponent y)"
      using lt by (intro powr_mono) simp_all
    moreover note binary64_upper[OF x]
    ultimately show ?thesis by linarith
  qed
qed

lemma binary64_eval:
  assumes "0 < x" and "- 1022 \<le> e" and "e = - 1022 \<or> 2 powr of_int e \<le> x"
    and "x < 2 powr of_int (e + 1)"
  shows "binary64 x
       = of_int (round_half_even (x / 2 powr of_int (e - 52))) * 2 powr of_int (e - 52)"
  using exponent_eq[OF assms] assms(1) by (simp add: binary64_def spacing_def)

lemma binary64_idem:
  assumes "0 \<le> x"
  shows "binary64 (binary64 x) = binary64 x"
proof (cases "binary64 x = 0")
  case True
  then show ?thesis by (simp add: binary64_def)
next
  case False
  then have x: "0 < x" using assms by (cases "x = 0") (simp_all add: binary64_def)
  define m where "m = round_half_even (x / spacing x)"
  define z where "z = binary64 x"
  define e where "e = exponent x"
  have z: "z = of_int m * spacing x" using x by (simp add: z_def m_def binary64_spacing)
  have zpos: "0 < z" using False binary64_nonneg[OF assms] by (simp add: z_def)
  have upper: "z \<le> 2 powr of_int (e + 1)"
    using binary64_upper[OF x] by (simp only: z_def e_def)
  have emin: "- 1022 \<le> e" using exponent_bounds(3)[OF x] by (simp only: e_def)
  have q: "spacing x = 2 powr of_int (e - 52)" by (simp add: spacing_def e_def)
  show ?thesis
  proof (cases "z = 2 powr of_int (e + 1)")
    case True
    have "(2::real) powr of_int (e + 1) < 2 powr of_int (e + 1 + 1)"
      by simp
    with True have lt: "z < 2 powr of_int (e + 1 + 1)" by simp
    from emin have emin': "- 1022 \<le> e + 1" by simp
    have "e + 1 = - 1022 \<or> 2 powr of_int (e + 1) \<le> z" using True by simp
    from binary64_eval[OF zpos emin' this lt]
    have b: "binary64 z
       = of_int (round_half_even (z / 2 powr of_int (e + 1 - 52))) * 2 powr of_int (e + 1 - 52)" .
    have "real_of_int (e + 1) = real_of_int (e + 1 - 52) + 52" by simp
    then have "(2::real) powr of_int (e + 1) = 2 powr (of_int (e + 1 - 52) + 52)"
      by (simp only:)
    also have "\<dots> = 2 powr of_int (e + 1 - 52) * 2 powr 52" by (rule powr_add)
    finally have split: "(2::real) powr of_int (e + 1) = 2 powr of_int (e + 1 - 52) * 2 ^ 52"
      by simp
    have "z / 2 powr of_int (e + 1 - 52) = of_int (2 ^ 52)"
      unfolding True split by simp
    then have "round_half_even (z / 2 powr of_int (e + 1 - 52)) = 2 ^ 52"
      by (simp only: rhe_of_int)
    then have "binary64 z = of_int (2 ^ 52) * 2 powr of_int (e + 1 - 52)"
      by (simp only: b)
    also have "\<dots> = z" unfolding True split by simp
    finally show ?thesis by (simp only: z_def)
  next
    case False
    with upper have lt: "z < 2 powr of_int (e + 1)" by simp
    have low: "e = - 1022 \<or> 2 powr of_int e \<le> z"
    proof (cases "e = - 1022")
      case True
      then show ?thesis by simp
    next
      case False
      with emin have "- 1022 < exponent x" by (simp add: e_def)
      from binary64_lower[OF x this] show ?thesis by (simp only: z_def e_def) simp
    qed
    from binary64_eval[OF zpos emin low lt]
    have "binary64 z
       = of_int (round_half_even (z / 2 powr of_int (e - 52))) * 2 powr of_int (e - 52)" .
    moreover have "z / 2 powr of_int (e - 52) = of_int m"
      by (simp add: z q)
    ultimately have "binary64 z = of_int m * 2 powr of_int (e - 52)"
      by (simp only: rhe_of_int)
    then show ?thesis using z q by (simp only: z_def)
  qed
qed

lemma binary64_error:
  assumes "0 < x"
  shows "\<bar>binary64 x - x\<bar> \<le> spacing x / 2"
proof -
  have "binary64 x - x = (of_int (round_half_even (x / spacing x)) - x / spacing x) * spacing x"
    using assms spacing_pos[of x] by (simp add: binary64_spacing field_simps)
  then have "\<bar>binary64 x - x\<bar>
      = \<bar>of_int (round_half_even (x / spacing x)) - x / spacing x\<bar> * spacing x"
    using spacing_pos[of x] by (simp add: abs_mult)
  also have "\<dots> \<le> 1 / 2 * spacing x"
    using rhe_error[of "x / spacing x"] spacing_pos[of x] by (intro mult_right_mono) simp_all
  finally show ?thesis by simp
qed

lemma binary64_0: "binary64 0 = 0"
  by (simp add: binary64_def)

lemma binary64_1: "binary64 1 = 1"
proof -
  have "binary64 1 = of_int (round_half_even (1 / 2 powr of_int (0 - 52))) * 2 powr of_int (0 - 52)"
    by (rule binary64_eval) simp_all
  moreover have "1 / 2 powr of_int (0 - 52) = real_of_int (2 ^ 52)"
    by (simp add: powr_minus field_simps)
  ultimately have "binary64 1 = of_int (2 ^ 52) * 2 powr of_int (0 - 52)"
    by (simp only: rhe_of_int)
  then show ?thesis by (simp add: powr_minus field_simps)
qed

lemma binary64_exact:
  assumes "0 < x" and "- 1022 \<le> e" and "2 powr of_int e \<le> x" and "x < 2 powr of_int (e + 1)"
    and "x / 2 powr of_int (e - 52) = of_int m"
  shows "binary64 x = x"
proof -
  have "binary64 x
       = of_int (round_half_even (x / 2 powr of_int (e - 52))) * 2 powr of_int (e - 52)"
    using assms(1-4) by (intro binary64_eval) simp_all
  also have "\<dots> = of_int m * 2 powr of_int (e - 52)"
    by (simp only: assms(5) rhe_of_int)
  also have "\<dots> = x"
    using assms(5)[symmetric] by simp
  finally show ?thesis .
qed

lemma binary64_half: "binary64 (1 / 2) = 1 / 2"
  by (rule binary64_exact[where e = "- 1" and m = "2 ^ 52"]) (simp_all add: powr_minus field_simps)

lemma binary64_five_quarters: "binary64 (5 / 4) = 5 / 4"
  by (rule binary64_exact[where e = 0 and m = "5 * 2 ^ 50"]) (simp_all add: powr_minus field_simps)

lemma binary64_above_1: "binary64 (1 + 1 / 2 ^ 54) = 1"
proof -
  have "binary64 (1 + 1 / 2 ^ 54)
      = of_int (round_half_even ((1 + 1 / 2 ^ 54) / 2 powr of_int (0 - 52))) * 2 powr of_int (0 - 52)"
    by (rule binary64_eval) (simp_all add: field_simps)
  moreover have "(1 + 1 / 2 ^ 54) / 2 powr of_int (0 - 52) = real_of_int (2 ^ 52) + 1 / 4"
    by (simp add: powr_minus field_simps)
  moreover have "round_half_even (real_of_int (2 ^ 52) + 1 / 4) = 2 ^ 52"
    by (simp add: round_half_even_def Let_def)
  ultimately have "binary64 (1 + 1 / 2 ^ 54) = of_int (2 ^ 52) * 2 powr of_int (0 - 52)"
    by (simp only:)
  then show ?thesis by (simp add: powr_minus field_simps)
qed

lemma binary64_absorbs:
  assumes "0 \<le> d" and "d \<le> 1 / 2 ^ 54"
  shows "binary64 (1 + d) = 1"
proof -
  have "binary64 1 \<le> binary64 (1 + d)" using assms(1) by (intro binary64_mono) simp_all
  moreover have "binary64 (1 + d) \<le> binary64 (1 + 1 / 2 ^ 54)"
    using assms by (intro binary64_mono) simp_all
  ultimately show ?thesis by (simp only: binary64_1 binary64_above_1)
qed

lemma binary64_clamp:
  assumes "0 \<le> u" and "u \<le> 1"
  shows "binary64 (u + binary64 (1 - u)) \<le> 1"
proof (cases "u = 0 \<or> u = 1")
  case True
  then show ?thesis by (auto simp: binary64_1 binary64_0)
next
  case False
  with assms have x: "0 < 1 - u" and lt: "1 - u < 1" by simp_all
  have "exponent (1 - u) \<le> - 1"
  proof (rule ccontr)
    assume "\<not> exponent (1 - u) \<le> - 1"
    then have e: "0 \<le> exponent (1 - u)" by simp
    then have "- 1022 < exponent (1 - u)" by simp
    from exponent_bounds(2)[OF x this] have "2 powr of_int (exponent (1 - u)) \<le> 1 - u" .
    moreover have "(2::real) powr 0 \<le> 2 powr of_int (exponent (1 - u))"
      using e by (intro powr_mono) simp_all
    ultimately show False using lt by simp
  qed
  then have "spacing (1 - u) \<le> 2 powr of_int (- 1 - 52)"
    unfolding spacing_def by (intro powr_mono) simp_all
  also have "\<dots> = 1 / 2 ^ 53" by (simp add: powr_minus field_simps)
  finally have "spacing (1 - u) / 2 \<le> 1 / 2 ^ 54" by simp
  with binary64_error[OF x] have "\<bar>binary64 (1 - u) - (1 - u)\<bar> \<le> 1 / 2 ^ 54" by linarith
  then have le: "u + binary64 (1 - u) \<le> 1 + 1 / 2 ^ 54" by linarith
  have "0 \<le> binary64 (1 - u)" using x by (intro binary64_nonneg) simp
  with assms(1) have "0 \<le> u + binary64 (1 - u)" by simp
  from binary64_mono[OF this le] show ?thesis by (simp only: binary64_above_1)
qed

lemmas binary64_values = binary64_0 binary64_1 binary64_half binary64_five_quarters

text \<open>
  The roundings for which the budget is proved to stay within its bounds: on the
  non-negative numbers \<open>fl\<close> is monotone and returns its own results as they are, it
  returns 0 and the total 1 of the constructor as they are, and topping the used budget
  \<open>u\<close> up by the rounded remainder \<open>fl (1 - u)\<close> does not pass the total. The identity and
  \<open>binary64\<close> are such roundings.
\<close>

lemma learn_budget:
  assumes fl: "\<forall>x y. 0 \<le> x \<and> x \<le> y \<longrightarrow> fl x \<le> fl y" "\<forall>x. 0 \<le> x \<longrightarrow> fl (fl x) = fl x"
      "\<forall>u. 0 \<le> u \<and> u \<le> privacyBudget L \<and> fl u = u
         \<longrightarrow> fl (u + fl (privacyBudget L - u)) \<le> privacyBudget L"
    and L: "0 \<le> usedBudget L" "usedBudget L \<le> privacyBudget L" "fl (usedBudget L) = usedBudget L"
    and r: "0 \<le> requested"
  shows "privacyBudget (fst (snd (learnWithPrivacy fl b gen L rawData requested g)))
           = privacyBudget L"
    and "usedBudget L \<le> usedBudget (fst (snd (learnWithPrivacy fl b gen L rawData requested g)))"
    and "usedBudget (fst (snd (learnWithPrivacy fl b gen L rawData requested g)))
           \<le> privacyBudget L"
    and "fl (usedBudget (fst (snd (learnWithPrivacy fl b gen L rawData requested g))))
           = usedBudget (fst (snd (learnWithPrivacy fl b gen L rawData requested g)))"
proof -
  let ?u = "usedBudget L" and ?t = "privacyBudget L"
  have up: "?u \<le> fl (?u + x)" if "0 \<le> x" for x
  proof -
    from that L(1) fl(1) have "fl ?u \<le> fl (?u + x)" by simp
    with L(3) show ?thesis by simp
  qed
  have idem: "fl (fl (?u + x)) = fl (?u + x)" if "0 \<le> x" for x
    using that L(1) fl(2) by simp
  have used: "usedBudget (fst (snd (learnWithPrivacy fl b gen L rawData requested g))) =
       (if fl (?u + requested) > ?t
        then (if fl (?t - ?u) \<le> 0 then ?u else fl (?u + fl (?t - ?u)))
        else fl (?u + requested))"
    by (simp add: learnWithPrivacy_def protect_def Let_def split: prod.splits)
  show "privacyBudget (fst (snd (learnWithPrivacy fl b gen L rawData requested g))) = ?t"
    by (simp add: learnWithPrivacy_def protect_def Let_def split: prod.splits)
  show "?u \<le> usedBudget (fst (snd (learnWithPrivacy fl b gen L rawData requested g)))"
    unfolding used using up[of requested] up[of "fl (?t - ?u)"] r by auto
  show "usedBudget (fst (snd (learnWithPrivacy fl b gen L rawData requested g))) \<le> ?t"
    unfolding used using fl(3) L by auto
  show "fl (usedBudget (fst (snd (learnWithPrivacy fl b gen L rawData requested g))))
           = usedBudget (fst (snd (learnWithPrivacy fl b gen L rawData requested g)))"
    unfolding used using idem[of requested] idem[of "fl (?t - ?u)"] r L(3) by auto
qed

lemma learner_step_budget:
  assumes fl: "\<forall>x y. 0 \<le> x \<and> x \<le> y \<longrightarrow> fl x \<le> fl y" "fl 0 = 0"
      "\<forall>x. 0 \<le> x \<longrightarrow> fl (fl x) = fl x"
      "\<forall>u. 0 \<le> u \<and> u \<le> privacyBudget L \<and> fl u = u
         \<longrightarrow> fl (u + fl (privacyBudget L - u)) \<le> privacyBudget L"
    and L: "0 \<le> usedBudget L" "usedBudget L \<le> privacyBudget L" "fl (usedBudget L) = usedBudget L"
    and c: "0 \<le> requested_budget c"
  shows "0 \<le> usedBudget (fst (learner_step fl b gen (L, g) c)) \<and>
         usedBudget (fst (learner_step fl b gen (L, g) c)) \<le> privacyBudget L \<and>
         fl (usedBudget (fst (learner_step fl b gen (L, g) c)))
           = usedBudget (fst (learner_step fl b gen (L, g) c)) \<and>
         privacyBudget (fst (learner_step fl b gen (L, g) c)) = privacyBudget L"
proof (cases c)
  case (LearnWithPrivacy rawData requested)
  with c have "0 \<le> requested" by simp
  from learn_budget[of fl L requested b gen rawData g, OF fl(1) fl(3) fl(4) L this]
    L(1) LearnWithPrivacy
  show ?thesis by simp
next
  case ResetPrivacyBudget
  with L fl(2) show ?thesis by (simp add: resetPrivacyBudget_def)
qed

lemma foldl_learner_budget:
  assumes fl: "\<forall>x y. 0 \<le> x \<and> x \<le> y \<longrightarrow> fl x \<le> fl y" "fl 0 = 0"
      "\<forall>x. 0 \<le> x \<longrightarrow> fl (fl x) = fl x"
      "\<forall>u. 0 \<le> u \<and> u \<le> t \<and> fl u = u \<longrightarrow> fl (u + fl (t - u)) \<le> t"
    and L: "privacyBudget L = t" "0 \<le> usedBudget L" "usedBudget L \<le> t"
      "fl (usedBudget L) = usedBudget L"
    and calls: "\<forall>c \<in> set calls. 0 \<le> requested_budget c"
  shows "0 \<le> usedBudget (fst (foldl (learner_step fl b gen) (L, g) calls)) \<and>
         usedBudget (fst (foldl (learner_step fl b gen) (L, g) calls)) \<le> t \<and>
         fl (usedBudget (fst (foldl (learner_step fl b gen) (L, g) calls)))
           = usedBudget (fst (foldl (learner_step fl b gen) (L, g) calls)) \<and>
         privacyBudget (fst (foldl (learner_step fl b gen) (L, g) calls)) = t"
  using L calls
proof (induction calls arbitrary: L g)
  case Nil
  then show ?case by simp
next
  case (Cons c calls)
  obtain L1 g1 where step: "learner_step fl b gen (L, g) c = (L1, g1)"
    by (cases "learner_step fl b gen (L, g) c")
  from Cons.prems have c: "0 \<le> requested_budget c" by simp
  have clamp: "\<forall>u. 0 \<le> u \<and> u \<le> privacyBudget L \<and> fl u = u
         \<longrightarrow> fl (u + fl (privacyBudget L - u)) \<le> privacyBudget L"
    using fl(4) Cons.prems(1) by simp
  have used: "0 \<le> usedBudget L" "usedBudget L \<le> privacyBudget L"
    "fl (usedBudget L) = usedBudget L"
    using Cons.prems by simp_all
  from learner_step_budget[of fl L c b gen g, OF fl(1) fl(2) fl(3) clamp used c] step
    Cons.prems(1)
  have L1: "privacyBudget L1 = t" "0 \<le> usedBudget L1" "usedBudget L1 \<le> t"
    "fl (usedBudget L1) = usedBudget L1"
    by simp_all
  from Cons.prems have rest: "\<forall>c \<in> set calls. 0 \<le> requested_budget c" by simp
  from Cons.IH[OF L1 rest, of g1] step show ?case by simp
qed

text \<open>
  The budget under any such rounding: after any history of \<open>learnWithPrivacy\<close> and
  \<open>resetPrivacyBudget\<close> calls on a new learner, every requested budget non-negative,
  \<open>getRemainingBudget\<close> is non-negative and at most \<open>privacyBudget\<close>, and one more
  \<open>learnWithPrivacy\<close> call with a non-negative request does not raise it.
\<close>

lemma remaining_budget_for_rounding:
  assumes "\<forall>x y. 0 \<le> x \<and> x \<le> y \<longrightarrow> fl x \<le> fl y" and "fl 0 = 0" and "fl 1 = 1"
    and "\<forall>x. 0 \<le> x \<longrightarrow> fl (fl x) = fl x"
    and "\<forall>u. 0 \<le> u \<and> u \<le> 1 \<and> fl u = u \<longrightarrow> fl (u + fl (1 - u)) \<le> 1"
    and "\<forall>c \<in> set calls. 0 \<le> requested_budget c" and "0 \<le> requested"
  shows "0 \<le> getRemainingBudget fl (learner_after fl b gen g calls) \<and>
         getRemainingBudget fl (learner_after fl b gen g calls)
           \<le> privacyBudget (learner_after fl b gen g calls) \<and>
         getRemainingBudget fl
             (learner_after fl b gen g (calls @ [LearnWithPrivacy rawData requested]))
           \<le> getRemainingBudget fl (learner_after fl b gen g calls)"
proof -
  obtain L g1 where run: "foldl (learner_step fl b gen) (new_learner, g) calls = (L, g1)"
    by (cases "foldl (learner_step fl b gen) (new_learner, g) calls")
  have start: "privacyBudget new_learner = 1" "0 \<le> usedBudget new_learner"
    "usedBudget new_learner \<le> 1" "fl (usedBudget new_learner) = usedBudget new_learner"
    using assms(2) by (simp_all add: new_learner_def)
  from foldl_learner_budget[of fl 1 new_learner calls b gen g,
      OF assms(1) assms(2) assms(4) assms(5) start assms(6)] run
  have L: "0 \<le> usedBudget L" "usedBudget L \<le> 1" "fl (usedBudget L) = usedBudget L"
    "privacyBudget L = 1"
    by simp_all
  have after: "learner_after fl b gen g calls = L"
    by (simp add: learner_after_def run)
  have next_call: "learner_after fl b gen g (calls @ [LearnWithPrivacy rawData requested])
                 = fst (snd (learnWithPrivacy fl b gen L rawData requested g1))"
    by (simp add: learner_after_def run)
  let ?L' = "fst (snd (learnWithPrivacy fl b gen L rawData requested g1))"
  have clamp: "\<forall>u. 0 \<le> u \<and> u \<le> privacyBudget L \<and> fl u = u
         \<longrightarrow> fl (u + fl (privacyBudget L - u)) \<le> privacyBudget L"
    using assms(5) L(4) by simp
  have used: "0 \<le> usedBudget L" "usedBudget L \<le> privacyBudget L"
    "fl (usedBudget L) = usedBudget L"
    using L by simp_all
  from learn_budget[of fl L requested b gen rawData g1, OF assms(1) assms(4) clamp used assms(7)]
  have L': "privacyBudget ?L' = privacyBudget L" "usedBudget L \<le> usedBudget ?L'"
    "usedBudget ?L' \<le> privacyBudget L"
    by simp_all
  have "fl 0 \<le> fl (1 - usedBudget L)"
    using L(2) assms(1) by simp
  then have lower: "0 \<le> fl (1 - usedBudget L)"
    using assms(2) by simp
  have "fl (1 - usedBudget L) \<le> fl 1"
    using L(1) L(2) assms(1) by simp
  then have upper: "fl (1 - usedBudget L) \<le> 1"
    using assms(3) by simp
  have down: "fl (1 - usedBudget ?L') \<le> fl (1 - usedBudget L)"
    using L'(2) L'(3) L(4) assms(1) by simp
  from lower upper down L' L(4) show ?thesis
    by (simp add: after next_call getRemainingBudget_def)
qed

text \<open>
  C2. Take any history of \<open>learnWithPrivacy\<close> and \<open>resetPrivacyBudget\<close> calls on a new
  learner, every requested budget non-negative. Then \<open>getRemainingBudget\<close> is non-negative
  and at most \<open>privacyBudget\<close>, and one more \<open>learnWithPrivacy\<close> call with a non-negative
  request does not raise it. This holds when the numbers are read as reals and the
  arithmetic as exact, and it holds under the rounding of the doubles.
\<close>

theorem remaining_budget_bounded_and_decreasing:
  assumes "\<forall>c \<in> set calls. 0 \<le> requested_budget c" and "0 \<le> requested"
  shows "0 \<le> getRemainingBudget (\<lambda>x. x) (learner_after (\<lambda>x. x) b gen g calls) \<and>
         getRemainingBudget (\<lambda>x. x) (learner_after (\<lambda>x. x) b gen g calls)
           \<le> privacyBudget (learner_after (\<lambda>x. x) b gen g calls) \<and>
         getRemainingBudget (\<lambda>x. x)
             (learner_after (\<lambda>x. x) b gen g (calls @ [LearnWithPrivacy rawData requested]))
           \<le> getRemainingBudget (\<lambda>x. x) (learner_after (\<lambda>x. x) b gen g calls) \<and>
         0 \<le> getRemainingBudget binary64 (learner_after binary64 b gen g calls) \<and>
         getRemainingBudget binary64 (learner_after binary64 b gen g calls)
           \<le> privacyBudget (learner_after binary64 b gen g calls) \<and>
         getRemainingBudget binary64
             (learner_after binary64 b gen g (calls @ [LearnWithPrivacy rawData requested]))
           \<le> getRemainingBudget binary64 (learner_after binary64 b gen g calls)"
proof -
  have exact: "0 \<le> getRemainingBudget (\<lambda>x. x) (learner_after (\<lambda>x. x) b gen g calls) \<and>
         getRemainingBudget (\<lambda>x. x) (learner_after (\<lambda>x. x) b gen g calls)
           \<le> privacyBudget (learner_after (\<lambda>x. x) b gen g calls) \<and>
         getRemainingBudget (\<lambda>x. x)
             (learner_after (\<lambda>x. x) b gen g (calls @ [LearnWithPrivacy rawData requested]))
           \<le> getRemainingBudget (\<lambda>x. x) (learner_after (\<lambda>x. x) b gen g calls)"
    by (rule remaining_budget_for_rounding[OF _ _ _ _ _ assms]) simp_all
  have m: "\<forall>x y. 0 \<le> x \<and> x \<le> y \<longrightarrow> binary64 x \<le> binary64 y"
    using binary64_mono by blast
  have i: "\<forall>x. 0 \<le> x \<longrightarrow> binary64 (binary64 x) = binary64 x"
    using binary64_idem by blast
  have c: "\<forall>u. 0 \<le> u \<and> u \<le> 1 \<and> binary64 u = u \<longrightarrow> binary64 (u + binary64 (1 - u)) \<le> 1"
    using binary64_clamp by blast
  have rounded: "0 \<le> getRemainingBudget binary64 (learner_after binary64 b gen g calls) \<and>
         getRemainingBudget binary64 (learner_after binary64 b gen g calls)
           \<le> privacyBudget (learner_after binary64 b gen g calls) \<and>
         getRemainingBudget binary64
             (learner_after binary64 b gen g (calls @ [LearnWithPrivacy rawData requested]))
           \<le> getRemainingBudget binary64 (learner_after binary64 b gen g calls)"
    by (rule remaining_budget_for_rounding[OF m binary64_0 binary64_1 i c assms])
  from exact rounded show ?thesis by simp
qed

theorem remaining_budget_bounded_and_decreasing_witness:
  "getRemainingBudget (\<lambda>x. x) (learner_after (\<lambda>x. x) Bundle (\<lambda>e g. (0, g)) ()
      [LearnWithPrivacy [] (6/10)]) = 4/10 \<and>
   getRemainingBudget (\<lambda>x. x) (learner_after (\<lambda>x. x) Bundle (\<lambda>e g. (0, g)) ()
      [LearnWithPrivacy [] (6/10), LearnWithPrivacy [] (6/10)]) = 0 \<and>
   getRemainingBudget (\<lambda>x. x) (learner_after (\<lambda>x. x) Bundle (\<lambda>e g. (0, g)) ()
      ([LearnWithPrivacy [] (6/10), LearnWithPrivacy [] (6/10)] @ [LearnWithPrivacy [] (3/10)]))
     \<le> getRemainingBudget (\<lambda>x. x) (learner_after (\<lambda>x. x) Bundle (\<lambda>e g. (0, g)) ()
      [LearnWithPrivacy [] (6/10), LearnWithPrivacy [] (6/10)]) \<and>
   getRemainingBudget binary64 (learner_after binary64 Bundle (\<lambda>e g. (0, g)) ()
      [LearnWithPrivacy [] (1/2)]) = 1/2 \<and>
   getRemainingBudget binary64 (learner_after binary64 Bundle (\<lambda>e g. (0, g)) ()
      [LearnWithPrivacy [] (1/2), LearnWithPrivacy [] (3/4)]) = 0"
  using remaining_budget_bounded_and_decreasing
     [of "[LearnWithPrivacy [] (6/10), LearnWithPrivacy [] (6/10)]" "3/10"
      Bundle "\<lambda>e g. (0, g)" "()" "[]"]
  by (simp add: learner_after_def learnWithPrivacy_def protect_def new_learner_def
      getRemainingBudget_def generalizeSensitiveFields_def updateLocalModel_def binary64_values)

text \<open>
  C3. The check of the budget compares what the code computes: the rounded sum
  \<open>fl (usedBudget + requested)\<close> with the total, and the rounded remainder
  \<open>fl (privacyBudget - usedBudget)\<close> with 0. For every rounding \<open>fl\<close>, that of the doubles
  among them: when the sum exceeds the total and the remainder is at most 0,
  \<open>learnWithPrivacy\<close> returns the data it was given, and leaves the learner (the used
  budget with it) and the random source as they were: no noise is drawn. The call has no
  failing branch.
\<close>

theorem exhausted_budget_passes_data_through:
  assumes "fl (usedBudget L + requested) > privacyBudget L"
    and "fl (privacyBudget L - usedBudget L) \<le> 0"
  shows "learnWithPrivacy fl b gen L rawData requested g = (rawData, L, g)"
  using assms by (simp add: learnWithPrivacy_def)

theorem exhausted_budget_passes_data_through_witness:
  "learner_after binary64 Bundle (\<lambda>e g. (1, g)) () [LearnWithPrivacy [] 1]
     = \<lparr>privacyBudget = 1, usedBudget = 1\<rparr> \<and>
   binary64 (usedBudget \<lparr>privacyBudget = 1, usedBudget = 1\<rparr> + 1 / 4) = 5 / 4 \<and>
   learnWithPrivacy binary64 Bundle (\<lambda>e g. (1, g)) \<lparr>privacyBudget = 1, usedBudget = 1\<rparr>
      [Rec [(''age'', JNum 45)], Val (JNum 7)] (1/4) ()
    = ([Rec [(''age'', JNum 45)], Val (JNum 7)], \<lparr>privacyBudget = 1, usedBudget = 1\<rparr>, ())"
  using exhausted_budget_passes_data_through
     [of "\<lparr>privacyBudget = 1, usedBudget = 1\<rparr>" binary64 "1/4"
      Bundle "\<lambda>e g. (1, g)" "[Rec [(''age'', JNum 45)], Val (JNum 7)]" "()"]
  by (simp add: learner_after_def learnWithPrivacy_def protect_def new_learner_def
      generalizeSensitiveFields_def updateLocalModel_def binary64_values)

text \<open>
  A request of at most \<open>2\<^sup>-\<^sup>5\<^sup>4\<close> on a learner whose budget is used up is not such a call: the
  rounded sum is the total, the check passes, and the data is processed with the request
  as its budget, the used budget staying at the total.
\<close>

lemma absorbed_request_is_processed:
  assumes "0 \<le> requested" and "requested \<le> 1 / 2 ^ 54"
  shows "learnWithPrivacy binary64 b gen \<lparr>privacyBudget = 1, usedBudget = 1\<rparr> rawData requested g
       = protect binary64 b gen \<lparr>privacyBudget = 1, usedBudget = 1\<rparr> rawData requested g"
    and "fst (snd (learnWithPrivacy binary64 b gen \<lparr>privacyBudget = 1, usedBudget = 1\<rparr>
                     rawData requested g))
       = \<lparr>privacyBudget = 1, usedBudget = 1\<rparr>"
  using binary64_absorbs[OF assms]
  by (simp_all add: learnWithPrivacy_def protect_def Let_def split: prod.splits)

section \<open>Properties of the Markov chain\<close>

lemmas markov_eval =
  buildMarkovChain_def add_label_def bump_def proto_names_def markov_predict_def
  predictWithMarkovChain_def most_frequent_def own_entries_def own_keys_def array_index_def
  is_space_def is_digit_def

text \<open>
  C6 on the code. The labels \<open>["go constructor"]\<close> give \<open>go\<close> one successor, the word
  \<open>constructor\<close>. Its cell is not the count 1: \<open>transitions.go.constructor\<close> reads the
  inherited function, and \<open>+ 1\<close> stores a string. The prediction for the partial input
  \<open>go\<close> compares that string with 0, keeps nothing, and returns the empty string, not the
  most frequent successor.
\<close>

theorem markov_successor_named_constructor:
  "buildMarkovChain [''go constructor'']
     = Inr \<lparr>transitions = [(''go'', [(''constructor'', Junk)])], starters = [(''go'', Count 1)]\<rparr> \<and>
   markov_predict u \<lparr>transitions = [(''go'', [(''constructor'', Junk)])],
                     starters = [(''go'', Count 1)]\<rparr> ''go'' = JStr ''''"
  by (simp add: markov_eval)

text \<open>The example of the specification: two occurrences of \<open>north\<close> beat one of \<open>south\<close>.\<close>

lemma markov_go_north:
  "buildMarkovChain [''go north'', ''go south'', ''go north'']
     = Inr \<lparr>transitions = [(''go'', [(''north'', Count 2), (''south'', Count 1)])],
            starters = [(''go'', Count 3)]\<rparr> \<and>
   markov_predict u \<lparr>transitions = [(''go'', [(''north'', Count 2), (''south'', Count 1)])],
            starters = [(''go'', Count 3)]\<rparr> ''go'' = JStr ''north''"
  by (simp add: markov_eval)

lemma bump_safe:
  assumes "b \<notin> set proto_names"
  shows "map_of (bump b row) = (map_of row)(b \<mapsto>
           (case map_of row b of Some (Count n) \<Rightarrow> Count (n + 1) | Some Junk \<Rightarrow> Junk
            | None \<Rightarrow> Count 1))"
    and "distinct (map fst row) \<Longrightarrow> distinct (map fst (bump b row))"
proof -
  from assms have np: "b \<noteq> ''__proto__''" by (auto simp: proto_names_def)
  show "map_of (bump b row) = (map_of row)(b \<mapsto>
           (case map_of row b of Some (Count n) \<Rightarrow> Count (n + 1) | Some Junk \<Rightarrow> Junk
            | None \<Rightarrow> Count 1))"
    using assms np by (simp add: bump_def map_of_put split: option.splits cell.splits)
  show "distinct (map fst row) \<Longrightarrow> distinct (map fst (bump b row))"
    using assms np by (simp add: bump_def distinct_put split: option.splits cell.splits)
qed

lemma row_counts_bump:
  assumes "row_counts row a ps" and "b \<notin> set proto_names"
  shows "row_counts (bump b row) a (ps @ [(a, b)])"
proof -
  from assms(1) have d: "distinct (map fst row)"
    and m: "\<And>x. map_of row x =
             (if count_list ps (a, x) = 0 then None else Some (Count (count_list ps (a, x))))"
    by (simp_all add: row_counts_def)
  have "map_of (bump b row) x =
          (if count_list (ps @ [(a, b)]) (a, x) = 0 then None
           else Some (Count (count_list (ps @ [(a, b)]) (a, x))))" for x
    using m[of x] m[of b] by (simp add: bump_safe(1)[OF assms(2)])
  with bump_safe(2)[OF assms(2) d] show ?thesis by (simp add: row_counts_def)
qed

lemma row_counts_other:
  assumes "row_counts row w ps" and "w \<noteq> a"
  shows "row_counts row w (ps @ [(a, b)])"
  using assms by (simp add: row_counts_def)

lemma row_counts_empty: "\<forall>x. count_list ps (a, x) = 0 \<Longrightarrow> row_counts [] a ps"
  by (simp add: row_counts_def)

lemma table_counts_step:
  assumes t: "table_counts t ps" and b: "b \<notin> set proto_names"
  shows "table_counts (put a (bump b (case map_of t a of None \<Rightarrow> [] | Some row \<Rightarrow> row)) t)
           (ps @ [(a, b)])"
proof -
  let ?row = "case map_of t a of None \<Rightarrow> [] | Some row \<Rightarrow> row"
  have old: "row_counts ?row a ps"
    using t[unfolded table_counts_def, rule_format, of a]
    by (cases "map_of t a") (simp_all add: row_counts_empty)
  have new: "row_counts (bump b ?row) a (ps @ [(a, b)])"
    using old b by (rule row_counts_bump)
  show ?thesis
    unfolding table_counts_def
  proof
    fix w
    show "case map_of (put a (bump b ?row) t) w of
            None \<Rightarrow> \<forall>x. count_list (ps @ [(a, b)]) (w, x) = 0
          | Some row \<Rightarrow> row_counts row w (ps @ [(a, b)])"
    proof (cases "w = a")
      case True
      with new show ?thesis by (simp add: map_of_put)
    next
      case False
      with t[unfolded table_counts_def, rule_format, of w] show ?thesis
        by (cases "map_of t w") (simp_all add: map_of_put row_counts_other)
    qed
  qed
qed

lemma record_transitions_counts:
  assumes "table_counts t ps" and "\<forall>w \<in> set parts. w \<notin> set proto_names"
  shows "\<exists>t'. record_transitions parts t = Inr t' \<and> table_counts t' (ps @ pairs_of parts)"
  using assms
proof (induction parts t arbitrary: ps rule: record_transitions.induct)
  case (1 current nxt rest t)
  from "1.prems"(2) have cur: "current \<notin> set proto_names" and nx: "nxt \<notin> set proto_names"
    and rest: "\<forall>w \<in> set (nxt # rest). w \<notin> set proto_names" by simp_all
  let ?row = "case map_of t current of None \<Rightarrow> [] | Some row \<Rightarrow> row"
  let ?t = "put current (bump nxt ?row) t"
  have step: "table_counts ?t (ps @ [(current, nxt)])"
    using "1.prems"(1) nx by (rule table_counts_step)
  show ?case
  proof (cases "map_of t current")
    case None
    with step have s: "table_counts (put current (bump nxt []) t) (ps @ [(current, nxt)])" by simp
    from "1.IH"(1)[OF None cur s rest] None cur show ?thesis by simp
  next
    case (Some row)
    with step have s: "table_counts (put current (bump nxt row) t) (ps @ [(current, nxt)])" by simp
    from "1.IH"(2)[OF Some s rest] Some show ?thesis by simp
  qed
qed simp_all

lemma add_labels_counts:
  assumes "table_counts (transitions m) ps"
    and "\<forall>label \<in> set labels. \<forall>w \<in> set (split_ws label). w \<notin> set proto_names"
  shows "\<exists>m'. add_labels m labels = Inr m' \<and>
              table_counts (transitions m') (ps @ label_pairs labels)"
  using assms
proof (induction labels arbitrary: m ps)
  case Nil
  then show ?case by (simp add: label_pairs_def)
next
  case (Cons label labels)
  from Cons.prems(2) have safe: "\<forall>w \<in> set (split_ws label). w \<notin> set proto_names"
    and rest: "\<forall>label \<in> set labels. \<forall>w \<in> set (split_ws label). w \<notin> set proto_names"
    by simp_all
  from record_transitions_counts[OF Cons.prems(1) safe]
  obtain t' where t': "record_transitions (split_ws label) (transitions m) = Inr t'"
    and c: "table_counts t' (ps @ pairs_of (split_ws label))" by blast
  obtain m1 where m1: "add_label m label = Inr m1" and tm1: "transitions m1 = t'"
    using t' by (simp add: add_label_def Let_def)
  from c tm1 have c1: "table_counts (transitions m1) (ps @ pairs_of (split_ws label))" by simp
  from Cons.IH[OF c1 rest] m1 show ?case by (simp add: label_pairs_def)
qed

lemma build_counts:
  assumes "\<forall>label \<in> set labels. \<forall>w \<in> set (split_ws label). w \<notin> set proto_names"
  shows "\<exists>m. buildMarkovChain labels = Inr m \<and> table_counts (transitions m) (label_pairs labels)"
proof -
  have "table_counts (transitions \<lparr>transitions = [], starters = []\<rparr>) []"
    by (simp add: table_counts_def)
  from add_labels_counts[OF this assms] show ?thesis by (simp add: buildMarkovChain_def)
qed

lemma set_own_entries: "set (own_entries obj) = set obj"
  by (auto simp: own_entries_def)

lemma most_frequent_fold:
  assumes "\<forall>e \<in> set es. \<exists>n. snd e = Count n"
    and "(m, k) = foldl most_frequent_step (m0, k0) es"
  shows "m0 \<le> m \<and> (\<forall>x n. (x, Count n) \<in> set es \<longrightarrow> n \<le> m) \<and>
         ((m, k) = (m0, k0) \<or> (k, Count m) \<in> set es)"
  using assms
proof (induction es arbitrary: m0 k0)
  case Nil
  then show ?case by simp
next
  case (Cons e es)
  from Cons.prems(1) obtain x n where e: "e = (x, Count n)" by (cases e) auto
  from Cons.prems(1) have rest: "\<forall>e \<in> set es. \<exists>n. snd e = Count n" by simp
  show ?case
  proof (cases "n > m0")
    case True
    with Cons.prems(2) e have "(m, k) = foldl most_frequent_step (n, x) es" by simp
    from Cons.IH[OF rest this] True e show ?thesis by auto
  next
    case False
    with Cons.prems(2) e have "(m, k) = foldl most_frequent_step (m0, k0) es" by simp
    from Cons.IH[OF rest this] False e show ?thesis by auto
  qed
qed

lemma row_counts_cells:
  assumes "row_counts row w ps" and "(x, c) \<in> set row"
  shows "c = Count (count_list ps (w, x)) \<and> 0 < count_list ps (w, x)"
proof -
  from assms(1) have d: "distinct (map fst row)"
    and m: "map_of row x =
             (if count_list ps (w, x) = 0 then None else Some (Count (count_list ps (w, x))))"
    by (simp_all add: row_counts_def)
  from d assms(2) have "map_of row x = Some c" by simp
  with m show ?thesis by (cases "count_list ps (w, x) = 0") simp_all
qed

lemma row_counts_predict:
  assumes r: "row_counts row w ps"
  shows "(row = [] \<longrightarrow> (\<forall>x. count_list ps (w, x) = 0)) \<and>
         (row \<noteq> [] \<longrightarrow>
            0 < count_list ps (w, snd (most_frequent row)) \<and>
            (\<forall>x. count_list ps (w, x) \<le> count_list ps (w, snd (most_frequent row))))"
proof (cases row)
  case Nil
  with r show ?thesis by (auto simp: row_counts_def split: if_splits)
next
  case (Cons e rest)
  obtain m k where mk: "(m, k) = most_frequent row" by (cases "most_frequent row") auto
  have cells: "\<forall>e \<in> set (own_entries row). \<exists>n. snd e = Count n"
  proof
    fix e assume "e \<in> set (own_entries row)"
    then have "(fst e, snd e) \<in> set row" by (simp add: set_own_entries)
    from row_counts_cells[OF r this] show "\<exists>n. snd e = Count n" by blast
  qed
  from mk have "(m, k) = foldl most_frequent_step (0, '''') (own_entries row)"
    by (simp add: most_frequent_def)
  from most_frequent_fold[OF cells this]
  have ub: "\<And>x n. (x, Count n) \<in> set row \<Longrightarrow> n \<le> m"
    and pick: "(m, k) = (0, '''') \<or> (k, Count m) \<in> set row"
    by (simp_all add: set_own_entries)
  obtain x0 c0 where e: "e = (x0, c0)" by (cases e)
  with Cons have in0: "(x0, c0) \<in> set row" by simp
  from row_counts_cells[OF r in0] have c0: "c0 = Count (count_list ps (w, x0))"
    and pos0: "0 < count_list ps (w, x0)" by simp_all
  from ub[of x0 "count_list ps (w, x0)"] in0 c0 have "count_list ps (w, x0) \<le> m" by simp
  with pos0 have mpos: "0 < m" by simp
  with pick have km: "(k, Count m) \<in> set row" by auto
  from row_counts_cells[OF r km] have meq: "m = count_list ps (w, k)" by simp
  have le: "count_list ps (w, x) \<le> m" for x
  proof (cases "count_list ps (w, x) = 0")
    case True
    then show ?thesis by simp
  next
    case False
    with r have "map_of row x = Some (Count (count_list ps (w, x)))" by (simp add: row_counts_def)
    then have "(x, Count (count_list ps (w, x))) \<in> set row" by (rule map_of_SomeD)
    then show ?thesis by (rule ub)
  qed
  from mk have k: "snd (most_frequent row) = k" by (metis snd_conv)
  from Cons mpos meq le k show ?thesis by simp
qed

text \<open>
  The same prediction on labels whose words name no member of \<open>Object.prototype\<close>. The
  chain is built, and for a partial input that is not empty the prediction is a string:
  the empty string when no word follows the last word of the input in any label, and
  otherwise a word that follows it at least as often as every other word does.
\<close>

theorem markov_predicts_most_frequent_successor:
  assumes "\<forall>label \<in> set labels. \<forall>w \<in> set (split_ws label). w \<notin> set proto_names"
    and "partialInput \<noteq> []"
  shows "\<exists>m y. buildMarkovChain labels = Inr m \<and>
           markov_predict u m partialInput = JStr y \<and>
           (if \<forall>x. successor_count labels (last (split_ws partialInput)) x = 0
            then y = ''''
            else 0 < successor_count labels (last (split_ws partialInput)) y \<and>
                 (\<forall>x. successor_count labels (last (split_ws partialInput)) x
                        \<le> successor_count labels (last (split_ws partialInput)) y))"
proof -
  let ?w = "last (split_ws partialInput)"
  from build_counts[OF assms(1)]
  obtain m where m: "buildMarkovChain labels = Inr m"
    and t: "table_counts (transitions m) (label_pairs labels)" by blast
  show ?thesis
  proof (cases "map_of (transitions m) ?w")
    case None
    with t[unfolded table_counts_def, rule_format, of ?w]
    have zero: "\<forall>x. successor_count labels ?w x = 0"
      by (simp add: successor_count_def)
    from None assms(2) have "markov_predict u m partialInput = JStr ''''"
      by (simp add: markov_predict_def predictWithMarkovChain_def Let_def)
    with m zero show ?thesis by simp
  next
    case (Some row)
    with t[unfolded table_counts_def, rule_format, of ?w]
    have r: "row_counts row ?w (label_pairs labels)"
      by simp
    have keys: "(own_keys row = []) = (row = [])"
      by (metis own_keys_def set_own_entries map_is_Nil_conv set_empty)
    from Some assms(2) have p: "markov_predict u m partialInput
        = JStr (if row = [] then '''' else snd (most_frequent row))"
      by (simp add: markov_predict_def predictWithMarkovChain_def Let_def keys)
    show ?thesis
    proof (cases "row = []")
      case True
      with row_counts_predict[OF r] have "\<forall>x. successor_count labels ?w x = 0"
        by (simp add: successor_count_def)
      with m p True show ?thesis by simp
    next
      case False
      with row_counts_predict[OF r]
      have pos: "0 < successor_count labels ?w (snd (most_frequent row))"
        and le: "\<forall>x. successor_count labels ?w x \<le> successor_count labels ?w (snd (most_frequent row))"
        by (simp_all add: successor_count_def)
      from pos have "\<not> (\<forall>x. successor_count labels ?w x = 0)" by auto
      with m p False pos le show ?thesis by auto
    qed
  qed
qed

theorem markov_predicts_most_frequent_successor_witness:
  "buildMarkovChain [''go north'', ''go south'', ''go north'']
     = Inr \<lparr>transitions = [(''go'', [(''north'', Count 2), (''south'', Count 1)])],
            starters = [(''go'', Count 3)]\<rparr> \<and>
   markov_predict 0 \<lparr>transitions = [(''go'', [(''north'', Count 2), (''south'', Count 1)])],
            starters = [(''go'', Count 3)]\<rparr> ''let us go'' = JStr ''north'' \<and>
   successor_count [''go north'', ''go south'', ''go north''] ''go'' ''north'' = 2"
  using markov_predicts_most_frequent_successor
    [of "[''go north'', ''go south'', ''go north'']" "''let us go''" 0]
  by (simp add: buildMarkovChain_def add_label_def bump_def proto_names_def markov_predict_def
     predictWithMarkovChain_def most_frequent_def own_entries_def own_keys_def array_index_def
     is_space_def is_digit_def successor_count_def label_pairs_def)

section \<open>Properties of RealTimePredictionEngine\<close>

lemma map_delete_head:
  "distinct (map fst ((k, v) # rest)) \<Longrightarrow> map_delete k ((k, v) # rest) = rest"
proof -
  assume d: "distinct (map fst ((k, v) # rest))"
  then have "\<forall>x \<in> set rest. fst x \<noteq> k" by auto
  then have "filter (\<lambda>(k', v). k' \<noteq> k) rest = rest"
    by (induction rest) auto
  then show ?thesis by (simp add: map_delete_def)
qed

lemma setCache_limit: "cacheSizeLimit (setCache e key v) = cacheSizeLimit e"
  by (simp add: setCache_def Let_def)

lemma setCache_full:
  assumes "distinct (map fst (predictionCache e))"
    and "length (predictionCache e) \<ge> cacheSizeLimit e" and "predictionCache e \<noteq> []"
  shows "predictionCache (setCache e key v) = put key v (tl (predictionCache e))"
proof -
  obtain k p rest where c: "predictionCache e = (k, p) # rest"
    using assms(3) by (cases "predictionCache e") auto
  with assms(1) have "map_delete k ((k, p) # rest) = rest"
    using map_delete_head by metis
  with c assms(2) show ?thesis by (simp add: setCache_def Let_def)
qed

lemma setCache_room:
  assumes "length (predictionCache e) < cacheSizeLimit e"
  shows "predictionCache (setCache e key v) = put key v (predictionCache e)"
  using assms by (simp add: setCache_def Let_def)

lemma distinct_tl_keys: "distinct (map fst al) \<Longrightarrow> distinct (map fst (tl al))"
  by (cases al) auto

lemma setCache_ok:
  assumes "cache_ok e" and "0 < cacheSizeLimit e"
  shows "cache_ok (setCache e key v)"
proof (cases "length (predictionCache e) < cacheSizeLimit e")
  case True
  from assms(1) have d: "distinct (map fst (predictionCache e))" by (simp add: cache_ok_def)
  from True have "length (put key v (predictionCache e)) \<le> cacheSizeLimit e"
    using length_put_le[of key v "predictionCache e"] by simp
  with d True show ?thesis
    by (simp add: cache_ok_def setCache_room setCache_limit distinct_put)
next
  case False
  from assms(1) have d: "distinct (map fst (predictionCache e))"
    and le: "length (predictionCache e) \<le> cacheSizeLimit e" by (simp_all add: cache_ok_def)
  from False le have eq: "length (predictionCache e) = cacheSizeLimit e" by simp
  with assms(2) have ne: "predictionCache e \<noteq> []" by auto
  have full: "predictionCache (setCache e key v) = put key v (tl (predictionCache e))"
    using setCache_full[OF d _ ne] eq by simp
  have "length (put key v (tl (predictionCache e))) \<le> Suc (length (tl (predictionCache e)))"
    by (rule length_put_le)
  also have "\<dots> = cacheSizeLimit e" using ne eq assms(2) by simp
  finally have len: "length (put key v (tl (predictionCache e))) \<le> cacheSizeLimit e" .
  from d have "distinct (map fst (put key v (tl (predictionCache e))))"
    by (simp add: distinct_put distinct_tl_keys)
  with len full show ?thesis
    by (simp add: cache_ok_def setCache_limit)
qed

lemma cache_after_ok:
  assumes "cache_ok e" and "0 < cacheSizeLimit e"
  shows "cache_ok (cache_after e calls) \<and> cacheSizeLimit (cache_after e calls) = cacheSizeLimit e"
  using assms
proof (induction calls arbitrary: e)
  case Nil
  then show ?case by (simp add: cache_after_def)
next
  case (Cons c calls)
  obtain key v where c: "c = (key, v)" by (cases c)
  have step: "cache_after e (c # calls) = cache_after (setCache e key v) calls"
    by (simp add: cache_after_def c)
  from Cons.prems have ok: "cache_ok (setCache e key v)" by (rule setCache_ok)
  from Cons.prems(2) have pos: "0 < cacheSizeLimit (setCache e key v)" by (simp add: setCache_limit)
  from Cons.IH[OF ok pos] show ?case by (simp add: step setCache_limit)
qed

lemma new_engine_cache:
  "predictionCache (new_engine stored_data) = [] \<and> cacheSizeLimit (new_engine stored_data) = 100"
  by (simp add: new_engine_def)

lemma insort_key_last:
  fixes f :: "'a \<Rightarrow> nat"
  assumes "\<forall>y \<in> set ys. f y < f x"
  shows "insort_key f x ys = ys @ [x]"
  using assms by (induction ys) auto

lemma insort_key_map_same:
  assumes "\<forall>z. f (g z) = f z"
  shows "insort_key f (g x) (map g ys) = map g (insort_key f x ys)"
  using assms by (induction ys) auto

lemma sort_key_map_same:
  assumes "\<forall>z. f (g z) = f z"
  shows "sort_key f (map g xs) = map g (sort_key f xs)"
  using assms by (induction xs) (simp_all add: insort_key_map_same)

lemma filter_earliest_sorted:
  fixes f :: "'a \<Rightarrow> nat"
  assumes "sorted (map f ys)" and "distinct (map f ys)" and "ys \<noteq> []"
  shows "filter (\<lambda>s. f s \<noteq> Min (set (map f ys))) ys = tl ys"
proof -
  obtain y rest where ys: "ys = y # rest" using assms(3) by (cases ys) auto
  with assms(1) have le: "\<forall>z \<in> set rest. f y \<le> f z" by auto
  have "Min (set (map f ys)) = f y"
  proof (rule Min_eqI)
    show "finite (set (map f ys))" by simp
    show "f y \<in> set (map f ys)" by (simp add: ys)
    fix z assume "z \<in> set (map f ys)"
    with le show "f y \<le> z" by (auto simp: ys)
  qed
  moreover from assms(2) ys have "f y \<notin> f ` set rest" by simp
  then have "\<forall>z \<in> set rest. f z \<noteq> f y" by (metis imageI)
  then have "filter (\<lambda>s. f s \<noteq> f y) rest = rest" by (induction rest) auto
  ultimately show ?thesis by (simp add: ys)
qed

lemma put_map_update:
  assumes "key \<in> set (map slot_key ys)" and "distinct (map slot_key ys)"
  shows "map (\<lambda>s. (slot_key s, slot_value s))
           (map (\<lambda>s. if slot_key s = key then s\<lparr>slot_value := v\<rparr> else s) ys)
         = put key v (map (\<lambda>s. (slot_key s, slot_value s)) ys)"
  using assms
proof (induction ys)
  case Nil
  then show ?case by simp
next
  case (Cons y ys)
  show ?case
  proof (cases "slot_key y = key")
    case True
    with Cons.prems(2) have "key \<notin> slot_key ` set ys" by simp
    then have "\<forall>s \<in> set ys. slot_key s \<noteq> key" by (metis imageI)
    then have "map (\<lambda>s. if slot_key s = key then s\<lparr>slot_value := v\<rparr> else s) ys = ys"
      by (induction ys) auto
    with True show ?thesis by simp
  next
    case False
    with Cons.prems have "key \<in> set (map slot_key ys)" "distinct (map slot_key ys)" by auto
    from Cons.IH[OF this] False show ?thesis by simp
  qed
qed


lemma by_insertion_keys: "map fst (by_insertion es) = map slot_key (sort_key inserted es)"
  by (simp add: by_insertion_def comp_def)

lemma distinct_map_sort_key: "distinct (map g (sort_key f xs)) = distinct (map g xs)"
  by (simp add: distinct_map)

lemma length_by_insertion: "length (by_insertion es) = length es"
  by (simp add: by_insertion_def)

lemma evict_refines:
  assumes "distinct (map inserted es)" and "es \<noteq> []"
  shows "by_insertion (filter (\<lambda>s. inserted s \<noteq> earliest es) es) = tl (by_insertion es)"
proof -
  let ?ys = "sort_key inserted es"
  have e: "earliest es = Min (set (map inserted ?ys))"
    by (simp add: earliest_def)
  have s: "sorted (map inserted ?ys)" by simp
  have d: "distinct (map inserted ?ys)"
    using assms(1) by (simp add: distinct_map_sort_key)
  have n: "?ys \<noteq> []" using assms(2) by (metis length_0_conv length_sort)
  have "sort_key inserted (filter (\<lambda>s. inserted s \<noteq> earliest es) es)
      = filter (\<lambda>s. inserted s \<noteq> earliest es) ?ys"
    by (simp add: filter_sort)
  also have "\<dots> = tl ?ys"
    unfolding e by (rule filter_earliest_sorted[OF s d n])
  finally show ?thesis by (simp add: by_insertion_def map_tl)
qed

lemma store_held_refines:
  assumes "key \<in> set (map slot_key kept)" and "distinct (map slot_key kept)"
  shows "by_insertion (map (\<lambda>s. if slot_key s = key then s\<lparr>slot_value := v\<rparr> else s) kept)
         = put key v (by_insertion kept)"
proof -
  let ?upd = "\<lambda>s. if slot_key s = key then s\<lparr>slot_value := v\<rparr> else s"
  have same: "\<forall>z. inserted (?upd z) = inserted z" by simp
  have k: "key \<in> set (map slot_key (sort_key inserted kept))" using assms(1) by simp
  have d: "distinct (map slot_key (sort_key inserted kept))"
    using assms(2) by (simp add: distinct_map_sort_key)
  have "sort_key inserted (map ?upd kept) = map ?upd (sort_key inserted kept)"
    by (rule sort_key_map_same[OF same])
  then show ?thesis
    unfolding by_insertion_def using put_map_update[OF k d, of v] by simp
qed

lemma store_new_refines:
  assumes "key \<notin> set (map slot_key kept)" and "\<forall>s \<in> set kept. inserted s < now"
  shows "by_insertion (\<lparr>slot_key = key, slot_value = v, inserted = now\<rparr> # kept)
         = put key v (by_insertion kept)"
proof -
  let ?new = "\<lparr>slot_key = key, slot_value = v, inserted = now\<rparr>"
  have "\<forall>y \<in> set (sort_key inserted kept). inserted y < inserted ?new"
    using assms(2) by simp
  then have "insort_key inserted ?new (sort_key inserted kept) = sort_key inserted kept @ [?new]"
    by (rule insort_key_last)
  then have "by_insertion (?new # kept) = by_insertion kept @ [(key, v)]"
    by (simp add: by_insertion_def)
  moreover have "key \<notin> set (map fst (by_insertion kept))"
    using assms(1) by (simp add: by_insertion_keys)
  ultimately show ?thesis by (simp add: put_absent)
qed


lemma spec_set_refines:
  assumes lim: "0 < cacheSizeLimit e"
    and stamps: "distinct (map inserted es)" "\<forall>s \<in> set es. inserted s < now"
    and keys: "distinct (map slot_key es)"
    and cache: "predictionCache e = by_insertion es"
    and len: "length es \<le> cacheSizeLimit e"
  shows "distinct (map inserted (spec_set (cacheSizeLimit e) now es key v)) \<and>
         (\<forall>s \<in> set (spec_set (cacheSizeLimit e) now es key v). inserted s < Suc now) \<and>
         distinct (map slot_key (spec_set (cacheSizeLimit e) now es key v)) \<and>
         predictionCache (setCache e key v)
           = by_insertion (spec_set (cacheSizeLimit e) now es key v) \<and>
         length (spec_set (cacheSizeLimit e) now es key v) \<le> cacheSizeLimit e"
proof -
  let ?limit = "cacheSizeLimit e"
  let ?upd = "\<lambda>s. if slot_key s = key then s\<lparr>slot_value := v\<rparr> else s"
  let ?new = "\<lparr>slot_key = key, slot_value = v, inserted = now\<rparr>"
  define kept where
    "kept = (if length es \<ge> ?limit then filter (\<lambda>s. inserted s \<noteq> earliest es) es else es)"
  have spec: "spec_set ?limit now es key v
      = (if key \<in> set (map slot_key kept) then map ?upd kept else ?new # kept)"
    by (simp add: spec_set_def kept_def Let_def)
  have sub: "set kept \<subseteq> set es" by (auto simp: kept_def)
  have k1: "distinct (map inserted kept)"
    using stamps(1) by (simp add: kept_def distinct_map_filter)
  have k2: "\<forall>s \<in> set kept. inserted s < now" using stamps(2) sub by auto
  have k3: "distinct (map slot_key kept)"
    using keys by (simp add: kept_def distinct_map_filter)
  have dk: "distinct (map fst (predictionCache e))"
    using keys by (simp add: cache by_insertion_keys distinct_map_sort_key)
  have k4: "predictionCache (setCache e key v) = put key v (by_insertion kept) \<and>
            length kept < ?limit"
  proof (cases "length es \<ge> ?limit")
    case True
    with len have eq: "length es = ?limit" by simp
    with lim have ne: "es \<noteq> []" by auto
    then have cne: "predictionCache e \<noteq> []"
      by (metis cache length_by_insertion length_0_conv)
    have full: "length (predictionCache e) \<ge> ?limit"
      using True by (simp add: cache length_by_insertion)
    have ev: "by_insertion kept = tl (by_insertion es)"
      using True evict_refines[OF stamps(1) ne] by (simp add: kept_def)
    have "length kept = length (tl (by_insertion es))"
      using ev length_by_insertion[of kept] by simp
    then have "length kept < ?limit"
      using eq lim by (simp add: length_by_insertion)
    moreover have "predictionCache (setCache e key v) = put key v (by_insertion kept)"
      using setCache_full[OF dk full cne, of key v] ev by (simp add: cache)
    ultimately show ?thesis by simp
  next
    case False
    then have "kept = es" by (simp add: kept_def)
    moreover from False have "length (predictionCache e) < ?limit"
      by (simp add: cache length_by_insertion)
    then have "predictionCache (setCache e key v) = put key v (predictionCache e)"
      by (rule setCache_room)
    ultimately show ?thesis using False by (simp add: cache)
  qed
  show ?thesis
  proof (cases "key \<in> set (map slot_key kept)")
    case True
    have same: "map inserted (map ?upd kept) = map inserted kept" by simp
    have keys_same: "map slot_key (map ?upd kept) = map slot_key kept" by simp
    have store: "by_insertion (map ?upd kept) = put key v (by_insertion kept)"
      by (rule store_held_refines[OF True k3])
    have eq: "spec_set ?limit now es key v = map ?upd kept"
      using True by (simp add: spec)
    have a: "distinct (map inserted (map ?upd kept))"
      using k1 by (simp only: same)
    have b: "\<forall>s \<in> set (map ?upd kept). inserted s < Suc now"
      using k2 by auto
    have c: "distinct (map slot_key (map ?upd kept))"
      using k3 by (simp only: keys_same)
    have d: "length (map ?upd kept) \<le> ?limit"
      using k4 by simp
    from a b c d store k4 show ?thesis
      unfolding eq by simp
  next
    case False
    have "by_insertion (?new # kept) = put key v (by_insertion kept)"
      by (rule store_new_refines[OF False k2])
    moreover have "now \<notin> inserted ` set kept" using k2 by auto
    ultimately show ?thesis
      using False k1 k2 k3 k4 by (auto simp: spec less_Suc_eq)
  qed
qed

lemma spec_run_refines:
  assumes "0 < cacheSizeLimit e"
    and "distinct (map inserted es)" and "\<forall>s \<in> set es. inserted s < now"
    and "distinct (map slot_key es)"
    and "predictionCache e = by_insertion es"
    and "length es \<le> cacheSizeLimit e"
  shows "predictionCache (cache_after e calls)
           = by_insertion (spec_run (cacheSizeLimit e) now es calls)"
  using assms
proof (induction calls arbitrary: e es now)
  case Nil
  then show ?case by (simp add: cache_after_def)
next
  case (Cons c calls)
  obtain key v where c: "c = (key, v)" by (cases c)
  have step: "cache_after e (c # calls) = cache_after (setCache e key v) calls"
    by (simp add: cache_after_def c)
  let ?es = "spec_set (cacheSizeLimit e) now es key v"
  from spec_set_refines[OF Cons.prems, of key v]
  have inv: "distinct (map inserted ?es)" "\<forall>s \<in> set ?es. inserted s < Suc now"
    "distinct (map slot_key ?es)" "predictionCache (setCache e key v) = by_insertion ?es"
    "length ?es \<le> cacheSizeLimit e"
    by simp_all
  have lim: "0 < cacheSizeLimit (setCache e key v)"
    using Cons.prems(1) by (simp add: setCache_limit)
  from Cons.IH[of "setCache e key v" ?es "Suc now"] lim inv
  have "predictionCache (cache_after (setCache e key v) calls)
      = by_insertion (spec_run (cacheSizeLimit e) (Suc now) ?es calls)"
    by (simp add: setCache_limit)
  then show ?case unfolding c step[unfolded c] by simp
qed

text \<open>
  C4. Take an engine whose cache is empty and whose limit is positive, as the constructor
  leaves it (\<open>new_engine_cache\<close>), and any history of \<open>_setCache\<close> calls. The cache is
  then the one that the specification describes (\<open>spec_cache_after\<close>): it lists the entries
  that survive from the earliest inserted to the latest, a key that was set again while
  held being as old as its insertion. It holds at most \<open>cacheSizeLimit\<close> entries. One more
  \<open>_setCache\<close> call stores its value under its key. Below the limit, a key that the cache
  does not hold goes last, and a key that it holds leaves the order of the keys as it was.
  At the limit, for a key that the cache does not hold, the cache becomes what it was
  without its first entry, the earliest inserted of those it held, followed by the new
  entry. A call of \<open>predictFieldValue\<close> that finds its key in the cache returns the cached
  prediction and leaves the engine, the order of the cache with it, as it was.
\<close>

theorem cache_bounded_insertion_order_eviction:
  assumes "predictionCache e0 = []" and "0 < cacheSizeLimit e0"
  shows "predictionCache (cache_after e0 calls)
           = by_insertion (spec_cache_after (cacheSizeLimit e0) calls) \<and>
         length (predictionCache (cache_after e0 calls)) \<le> cacheSizeLimit (cache_after e0 calls) \<and>
         cacheSizeLimit (cache_after e0 calls) = cacheSizeLimit e0 \<and>
         map_of (predictionCache (setCache (cache_after e0 calls) key v)) key = Some v \<and>
         (length (predictionCache (cache_after e0 calls)) < cacheSizeLimit e0
            \<and> key \<notin> fst ` set (predictionCache (cache_after e0 calls))
          \<longrightarrow> predictionCache (setCache (cache_after e0 calls) key v)
                = predictionCache (cache_after e0 calls) @ [(key, v)]) \<and>
         (length (predictionCache (cache_after e0 calls)) < cacheSizeLimit e0
            \<and> key \<in> fst ` set (predictionCache (cache_after e0 calls))
          \<longrightarrow> map fst (predictionCache (setCache (cache_after e0 calls) key v))
                = map fst (predictionCache (cache_after e0 calls))) \<and>
         (length (predictionCache (cache_after e0 calls)) = cacheSizeLimit e0
            \<and> key \<notin> fst ` set (predictionCache (cache_after e0 calls))
          \<longrightarrow> predictionCache (setCache (cache_after e0 calls) key v)
                = tl (predictionCache (cache_after e0 calls)) @ [(key, v)]) \<and>
         (map_of (predictionCache (cache_after e0 calls)) (generateCacheKey stringify (Some f) ctx)
            = Some p
          \<longrightarrow> predictFieldValue num stringify (cache_after e0 calls) (Some f) ctx
                = (Inr p, cache_after e0 calls))"
proof -
  let ?e = "cache_after e0 calls"
  from assms(1) have ok0: "cache_ok e0" by (simp add: cache_ok_def)
  from cache_after_ok[OF ok0 assms(2), of calls]
  have ok: "cache_ok ?e" and lim: "cacheSizeLimit ?e = cacheSizeLimit e0" by simp_all
  have start: "predictionCache e0 = by_insertion []"
    using assms(1) by (simp add: by_insertion_def)
  have refines: "predictionCache ?e = by_insertion (spec_cache_after (cacheSizeLimit e0) calls)"
    unfolding spec_cache_after_def
    by (rule spec_run_refines[OF assms(2) _ _ _ start]) simp_all
  have stores: "map_of (predictionCache (setCache ?e key v)) key = Some v"
    by (simp add: setCache_def Let_def map_of_put)
  have room: "predictionCache (setCache ?e key v) = predictionCache ?e @ [(key, v)]"
    if "length (predictionCache ?e) < cacheSizeLimit e0"
      and "key \<notin> fst ` set (predictionCache ?e)"
  proof -
    from that(1) lim have "predictionCache (setCache ?e key v) = put key v (predictionCache ?e)"
      by (simp add: setCache_room)
    with that(2) show ?thesis by (simp add: put_absent)
  qed
  have rewrite: "map fst (predictionCache (setCache ?e key v)) = map fst (predictionCache ?e)"
    if "length (predictionCache ?e) < cacheSizeLimit e0"
      and "key \<in> fst ` set (predictionCache ?e)"
  proof -
    from that(1) lim have "predictionCache (setCache ?e key v) = put key v (predictionCache ?e)"
      by (simp add: setCache_room)
    with that(2) show ?thesis by (simp add: keys_put_present)
  qed
  have evict: "predictionCache (setCache ?e key v) = tl (predictionCache ?e) @ [(key, v)]"
    if full: "length (predictionCache ?e) = cacheSizeLimit e0"
      and new: "key \<notin> fst ` set (predictionCache ?e)"
  proof -
    from ok have d: "distinct (map fst (predictionCache ?e))" by (simp add: cache_ok_def)
    from full assms(2) have ne: "predictionCache ?e \<noteq> []" by auto
    have "predictionCache (setCache ?e key v) = put key v (tl (predictionCache ?e))"
      using setCache_full[OF d _ ne] full lim by simp
    moreover from new ne have "key \<notin> set (map fst (tl (predictionCache ?e)))"
      by (cases "predictionCache ?e") auto
    ultimately show ?thesis by (simp add: put_absent)
  qed
  have hit: "predictFieldValue num stringify ?e (Some f) ctx = (Inr p, ?e)"
    if "map_of (predictionCache ?e) (generateCacheKey stringify (Some f) ctx) = Some p"
    using that by (simp add: predictFieldValue_def Let_def)
  have bound: "length (predictionCache ?e) \<le> cacheSizeLimit ?e"
    using ok by (simp add: cache_ok_def)
  from refines bound lim stores room rewrite evict hit show ?thesis
    by blast
qed


theorem cache_bounded_insertion_order_eviction_witness:
  "map fst (predictionCache (cache_after ((new_engine [])\<lparr>cacheSizeLimit := 3\<rparr>)
       [(''a-{}'', getGenericPrediction \<lparr>f_name = ''a'', f_value = JNull\<rparr>),
        (''b-{}'', getGenericPrediction \<lparr>f_name = ''b'', f_value = JNull\<rparr>),
        (''a-{}'', getGenericPrediction \<lparr>f_name = ''phone'', f_value = JNull\<rparr>),
        (''c-{}'', getGenericPrediction \<lparr>f_name = ''c'', f_value = JNull\<rparr>)]))
     = [''a-{}'', ''b-{}'', ''c-{}''] \<and>
   map (\<lambda>s. (slot_key s, inserted s)) (spec_cache_after 3
       [(''a-{}'', getGenericPrediction \<lparr>f_name = ''a'', f_value = JNull\<rparr>),
        (''b-{}'', getGenericPrediction \<lparr>f_name = ''b'', f_value = JNull\<rparr>),
        (''a-{}'', getGenericPrediction \<lparr>f_name = ''phone'', f_value = JNull\<rparr>),
        (''c-{}'', getGenericPrediction \<lparr>f_name = ''c'', f_value = JNull\<rparr>)])
     = [(''c-{}'', 3), (''b-{}'', 1), (''a-{}'', 0)] \<and>
   map_of (predictionCache (cache_after ((new_engine [])\<lparr>cacheSizeLimit := 3\<rparr>)
       [(''a-{}'', getGenericPrediction \<lparr>f_name = ''a'', f_value = JNull\<rparr>),
        (''b-{}'', getGenericPrediction \<lparr>f_name = ''b'', f_value = JNull\<rparr>),
        (''a-{}'', getGenericPrediction \<lparr>f_name = ''phone'', f_value = JNull\<rparr>),
        (''c-{}'', getGenericPrediction \<lparr>f_name = ''c'', f_value = JNull\<rparr>)])) ''a-{}''
     = Some (getGenericPrediction \<lparr>f_name = ''phone'', f_value = JNull\<rparr>) \<and>
   map fst (predictionCache (setCache (cache_after ((new_engine [])\<lparr>cacheSizeLimit := 3\<rparr>)
       [(''a-{}'', getGenericPrediction \<lparr>f_name = ''a'', f_value = JNull\<rparr>),
        (''b-{}'', getGenericPrediction \<lparr>f_name = ''b'', f_value = JNull\<rparr>),
        (''a-{}'', getGenericPrediction \<lparr>f_name = ''phone'', f_value = JNull\<rparr>),
        (''c-{}'', getGenericPrediction \<lparr>f_name = ''c'', f_value = JNull\<rparr>)])
       ''d-{}'' (getGenericPrediction \<lparr>f_name = ''d'', f_value = JNull\<rparr>)))
     = [''b-{}'', ''c-{}'', ''d-{}''] \<and>
   snd (predictFieldValue (\<lambda>x. ''0'') (\<lambda>c. c)
         (cache_after ((new_engine [])\<lparr>cacheSizeLimit := 3\<rparr>)
           [(''a-{}'', getGenericPrediction \<lparr>f_name = ''a'', f_value = JNull\<rparr>),
        (''b-{}'', getGenericPrediction \<lparr>f_name = ''b'', f_value = JNull\<rparr>),
        (''a-{}'', getGenericPrediction \<lparr>f_name = ''phone'', f_value = JNull\<rparr>),
        (''c-{}'', getGenericPrediction \<lparr>f_name = ''c'', f_value = JNull\<rparr>)])
         (Some \<lparr>f_name = ''a'', f_value = JNull\<rparr>) ''{}'')
     = cache_after ((new_engine [])\<lparr>cacheSizeLimit := 3\<rparr>)
         [(''a-{}'', getGenericPrediction \<lparr>f_name = ''a'', f_value = JNull\<rparr>),
        (''b-{}'', getGenericPrediction \<lparr>f_name = ''b'', f_value = JNull\<rparr>),
        (''a-{}'', getGenericPrediction \<lparr>f_name = ''phone'', f_value = JNull\<rparr>),
        (''c-{}'', getGenericPrediction \<lparr>f_name = ''c'', f_value = JNull\<rparr>)] \<and>
   map fst (predictionCache (setCache (cache_after ((new_engine [])\<lparr>cacheSizeLimit := 3\<rparr>)
       [(''a-{}'', getGenericPrediction \<lparr>f_name = ''a'', f_value = JNull\<rparr>),
        (''b-{}'', getGenericPrediction \<lparr>f_name = ''b'', f_value = JNull\<rparr>)])
       ''d-{}'' (getGenericPrediction \<lparr>f_name = ''d'', f_value = JNull\<rparr>)))
     = [''a-{}'', ''b-{}'', ''d-{}''] \<and>
   predictionCache (setCache (cache_after ((new_engine [])\<lparr>cacheSizeLimit := 3\<rparr>)
       [(''a-{}'', getGenericPrediction \<lparr>f_name = ''a'', f_value = JNull\<rparr>),
        (''b-{}'', getGenericPrediction \<lparr>f_name = ''b'', f_value = JNull\<rparr>)])
       ''a-{}'' (getGenericPrediction \<lparr>f_name = ''d'', f_value = JNull\<rparr>))
     = [(''a-{}'', getGenericPrediction \<lparr>f_name = ''d'', f_value = JNull\<rparr>),
        (''b-{}'', getGenericPrediction \<lparr>f_name = ''b'', f_value = JNull\<rparr>)]"
  using cache_bounded_insertion_order_eviction
    [where ?e0.0 = "((new_engine [])\<lparr>cacheSizeLimit := 3\<rparr>)"
       and calls = "[(''a-{}'', getGenericPrediction \<lparr>f_name = ''a'', f_value = JNull\<rparr>),
        (''b-{}'', getGenericPrediction \<lparr>f_name = ''b'', f_value = JNull\<rparr>),
        (''a-{}'', getGenericPrediction \<lparr>f_name = ''phone'', f_value = JNull\<rparr>),
        (''c-{}'', getGenericPrediction \<lparr>f_name = ''c'', f_value = JNull\<rparr>)]"
       and key = "''d-{}''" and v = "getGenericPrediction \<lparr>f_name = ''d'', f_value = JNull\<rparr>"
       and stringify = "\<lambda>c. c" and f = "\<lparr>f_name = ''a'', f_value = JNull\<rparr>" and ctx = "''{}''"
       and p = "getGenericPrediction \<lparr>f_name = ''phone'', f_value = JNull\<rparr>" and num = "\<lambda>x. ''0''"]
    cache_bounded_insertion_order_eviction
    [where ?e0.0 = "((new_engine [])\<lparr>cacheSizeLimit := 3\<rparr>)"
       and calls = "[(''a-{}'', getGenericPrediction \<lparr>f_name = ''a'', f_value = JNull\<rparr>),
        (''b-{}'', getGenericPrediction \<lparr>f_name = ''b'', f_value = JNull\<rparr>)]"
       and key = "''d-{}''" and v = "getGenericPrediction \<lparr>f_name = ''d'', f_value = JNull\<rparr>"]
    cache_bounded_insertion_order_eviction
    [where ?e0.0 = "((new_engine [])\<lparr>cacheSizeLimit := 3\<rparr>)"
       and calls = "[(''a-{}'', getGenericPrediction \<lparr>f_name = ''a'', f_value = JNull\<rparr>),
        (''b-{}'', getGenericPrediction \<lparr>f_name = ''b'', f_value = JNull\<rparr>)]"
       and key = "''a-{}''" and v = "getGenericPrediction \<lparr>f_name = ''d'', f_value = JNull\<rparr>"]
  by (simp add: cache_after_def setCache_def map_delete_def new_engine_def
      getGenericPrediction_def generateCacheKey_def starts_with_def Let_def
      spec_cache_after_def spec_set_def earliest_def by_insertion_def)

lemma no_examples_generic:
  assumes "map_of (trainingData e) (f_name f) = None \<or> map_of (trainingData e) (f_name f) = Some []"
  shows "predictFromTrainingData num e f = Inr (getGenericPrediction f)"
  using assms by (auto simp: predictFromTrainingData_def)

lemma generic_source: "p_source (getGenericPrediction f) = ''generic''"
  by (simp add: getGenericPrediction_def Let_def)

lemma generic_confidence:
  "p_confidence (getGenericPrediction f) =
     (if includes_str (f_name f) ''email'' \<or> includes_str (f_name f) ''phone'' then 3 / 10
      else if includes_str (f_name f) ''fullName'' then 2 / 10 else 0)"
  by (simp add: getGenericPrediction_def Let_def)

text \<open>
  C5, as the claim states it, fails: for a field named \<open>city\<close> with no training example
  the prediction is the generic one with the value \<open>null\<close> and the confidence 0, which is
  not between 0.2 and 0.3.
\<close>

theorem generic_prediction_confidence_zero:
  "predictFromTrainingData (\<lambda>x. ''0'') (new_engine [])
      \<lparr>f_name = ''city'', f_value = JStr ''''\<rparr>
     = Inr \<lparr>p_value = JNull, p_confidence = 0, p_alternatives = [], p_source = ''generic''\<rparr>"
  by (simp add: predictFromTrainingData_def new_engine_def getGenericPrediction_def starts_with_def)

lemma generic_empty:
  assumes "\<not> includes_str (f_name f) ''email''" and "\<not> includes_str (f_name f) ''phone''"
    and "\<not> includes_str (f_name f) ''fullName''"
  shows "getGenericPrediction f
       = \<lparr>p_value = JNull, p_confidence = 0, p_alternatives = [], p_source = ''generic''\<rparr>"
  using assms by (simp add: getGenericPrediction_def Let_def)

text \<open>
  C5, amended. For a field with no stored training example (no entry, or an entry with no
  example) \<open>_predictFromTrainingData\<close> raises nothing and returns the generic prediction,
  whose source is \<open>generic\<close> and whose confidence is fixed by the name of the field: 0.3
  when the name includes \<open>email\<close> or \<open>phone\<close>, else 0.2 when it includes \<open>fullName\<close>, else
  0; in this last case the value of the prediction is \<open>null\<close> and it has no alternatives.
  \<open>predictFieldValue\<close> returns the same prediction when the cache has no entry for the key
  of the call.
\<close>

theorem no_examples_generic_prediction:
  assumes "map_of (trainingData e) (f_name f) = None \<or> map_of (trainingData e) (f_name f) = Some []"
  shows "predictFromTrainingData num e f = Inr (getGenericPrediction f) \<and>
         p_source (getGenericPrediction f) = ''generic'' \<and>
         p_confidence (getGenericPrediction f) =
           (if includes_str (f_name f) ''email'' \<or> includes_str (f_name f) ''phone'' then 3 / 10
            else if includes_str (f_name f) ''fullName'' then 2 / 10 else 0) \<and>
         (\<not> includes_str (f_name f) ''email'' \<and> \<not> includes_str (f_name f) ''phone''
            \<and> \<not> includes_str (f_name f) ''fullName'' \<longrightarrow>
            predictFromTrainingData num e f
              = Inr \<lparr>p_value = JNull, p_confidence = 0, p_alternatives = [],
                     p_source = ''generic''\<rparr>) \<and>
         (map_of (predictionCache e) (generateCacheKey stringify (Some f) ctx) = None \<longrightarrow>
            fst (predictFieldValue num stringify e (Some f) ctx) = Inr (getGenericPrediction f))"
  using no_examples_generic[OF assms, of num] generic_source[of f] generic_confidence[of f]
    generic_empty[of f]
  by (simp add: predictFieldValue_def Let_def)

theorem no_examples_generic_prediction_witness:
  "predictFromTrainingData (\<lambda>x. ''0'')
      (addTrainingData 1 (new_engine []) [(''city'', JStr ''Boston'')])
      \<lparr>f_name = ''work_email'', f_value = JStr ''''\<rparr>
     = Inr \<lparr>p_value = JStr ''user@example.com'', p_confidence = 3 / 10,
            p_alternatives = [''user@example.com'', ''person@gmail.com''],
            p_source = ''generic''\<rparr> \<and>
   p_confidence (getGenericPrediction \<lparr>f_name = ''work_email'', f_value = JStr ''''\<rparr>) = 3 / 10 \<and>
   predictFromTrainingData (\<lambda>x. ''0'')
      (addTrainingData 1 (new_engine []) [(''city'', JStr ''Boston'')])
      \<lparr>f_name = ''zip'', f_value = JStr ''''\<rparr>
     = Inr \<lparr>p_value = JNull, p_confidence = 0, p_alternatives = [], p_source = ''generic''\<rparr> \<and>
   fst (predictFieldValue (\<lambda>x. ''0'') (\<lambda>c. c)
      (addTrainingData 1 (new_engine []) [(''city'', JStr ''Boston'')])
      (Some \<lparr>f_name = ''zip'', f_value = JStr ''''\<rparr>) ''{}'')
     = Inr \<lparr>p_value = JNull, p_confidence = 0, p_alternatives = [], p_source = ''generic''\<rparr>"
  using no_examples_generic_prediction [of "addTrainingData 1 (new_engine []) [(''city'', JStr ''Boston'')]"
      "\<lparr>f_name = ''work_email'', f_value = JStr ''''\<rparr>" "\<lambda>x. ''0''" "\<lambda>c. c" "''{}''"]
    no_examples_generic_prediction [of "addTrainingData 1 (new_engine []) [(''city'', JStr ''Boston'')]"
      "\<lparr>f_name = ''zip'', f_value = JStr ''''\<rparr>" "\<lambda>x. ''0''" "\<lambda>c. c" "''{}''"]
  by (simp add: addTrainingData_def add_example_def new_engine_def getGenericPrediction_def
      starts_with_def)

section \<open>Properties of the patterns and the suggestions\<close>






lemma stored_update_pattern:
  "stored (update_pattern pats (f, v)) fld
     = (if fld = f then set_add v (stored pats f) else stored pats fld)"
  by (cases "map_of pats f") (simp_all add: stored_def update_pattern_def map_of_put set_add_def)

lemma count_list_distinct: "distinct xs \<Longrightarrow> x \<in> set xs \<Longrightarrow> count_list xs x = 1"
  by (induction xs) auto

lemma distinct_set_add: "distinct s \<Longrightarrow> distinct (set_add v s)"
  by (simp add: set_add_def)

lemma set_set_add: "set (set_add v s) = insert v (set s)"
  by (auto simp: set_add_def)

lemma stored_foldl_form:
  assumes "\<forall>fld. distinct (stored pats fld)"
  shows "(\<forall>fld. distinct (stored (foldl update_pattern pats form) fld)) \<and>
         (\<forall>fld. set (stored (foldl update_pattern pats form) fld)
                 = set (stored pats fld) \<union> {v. (fld, v) \<in> set form})"
  using assms
proof (induction form arbitrary: pats)
  case Nil
  then show ?case by simp
next
  case (Cons entry form)
  obtain f v where entry: "entry = (f, v)" by (cases entry)
  have d: "\<forall>fld. distinct (stored (update_pattern pats (f, v)) fld)"
    using Cons.prems by (simp add: stored_update_pattern distinct_set_add)
  from Cons.IH[OF d] show ?case
    by (auto simp: entry stored_update_pattern set_set_add)
qed

lemma stored_foldl_forms:
  assumes "\<forall>fld. distinct (stored (patterns p) fld)"
  shows "(\<forall>fld. distinct (stored (patterns (foldl updatePatterns p forms)) fld)) \<and>
         (\<forall>fld. set (stored (patterns (foldl updatePatterns p forms)) fld)
                 = set (stored (patterns p) fld) \<union> {v. \<exists>form \<in> set forms. (fld, v) \<in> set form})"
  using assms
proof (induction forms arbitrary: p)
  case Nil
  then show ?case by simp
next
  case (Cons form forms)
  from stored_foldl_form[OF Cons.prems, of form]
  have d: "\<forall>fld. distinct (stored (patterns (updatePatterns p form)) fld)"
    and s: "\<forall>fld. set (stored (patterns (updatePatterns p form)) fld)
                 = set (stored (patterns p) fld) \<union> {v. (fld, v) \<in> set form}"
    by (simp_all add: updatePatterns_def)
  from Cons.IH[OF d] s show ?case by auto
qed

lemma matching_patterns_sub:
  "matching_patterns partialValue vs = Inr xs \<Longrightarrow>
     map JStr xs = filter (\<lambda>v. case v of JStr s \<Rightarrow> starts_with s partialValue | _ \<Rightarrow> False) vs"
proof (induction vs arbitrary: xs)
  case Nil
  then show ?case by simp
next
  case (Cons v vs)
  show ?case
  proof (cases v)
    case (JStr s)
    with Cons.prems obtain ys where ys: "matching_patterns partialValue vs = Inr ys"
      and xs: "xs = (if starts_with s partialValue then s # ys else ys)"
      by (auto split: sum.splits)
    from Cons.IH[OF ys] xs JStr show ?thesis by simp
  qed (use Cons.prems in simp_all)
qed

lemma distinct_map_JStr: "distinct (map JStr xs) \<Longrightarrow> distinct xs"
  by (simp add: distinct_map)

lemma distinct_slice_to: "distinct xs \<Longrightarrow> distinct (slice_to m xs)"
  by (cases m) simp_all

lemma getSuggestions_distinct:
  assumes "distinct (stored (patterns p) fld)" and "getSuggestions p fld partialValue = Inr xs"
  shows "distinct xs"
proof (cases "map_of (patterns p) fld")
  case None
  with assms(2) have "xs = slice_to (maxSuggestions p) []" by (simp add: getSuggestions_def)
  then show ?thesis by (simp add: distinct_slice_to)
next
  case (Some vs)
  with assms(1) have d: "distinct vs" by (simp add: stored_def)
  from Some assms(2) obtain ys where ys: "matching_patterns partialValue vs = Inr ys"
    and xs: "xs = slice_to (maxSuggestions p) ys"
    by (auto simp: getSuggestions_def split: sum.splits)
  from matching_patterns_sub[OF ys] d have "distinct (map JStr ys)" by simp
  then have "distinct ys" by (rule distinct_map_JStr)
  with xs show ?thesis by (simp add: distinct_slice_to)
qed

text \<open>
  C10. After any history of \<open>_updatePatterns\<close> calls on a new predictor, the values stored
  for a field have no repetition; a value that one of the calls brought for the field is
  stored exactly once; and a list that \<open>getSuggestions\<close> returns has no repetition.
\<close>

theorem patterns_deduplicated:
  "distinct (stored (patterns (patterns_after opt forms)) fld) \<and>
   (\<forall>form \<in> set forms. \<forall>v. (fld, v) \<in> set form \<longrightarrow>
      count_list (stored (patterns (patterns_after opt forms)) fld) v = 1) \<and>
   (\<forall>xs. getSuggestions (patterns_after opt forms) fld partialValue = Inr xs \<longrightarrow> distinct xs)"
proof -
  let ?p = "patterns_after opt forms"
  have start: "\<forall>fld. distinct (stored (patterns (new_predictor opt)) fld)"
    by (simp add: new_predictor_def stored_def)
  from stored_foldl_forms[OF start, of forms]
  have d: "distinct (stored (patterns ?p) fld)"
    and s: "set (stored (patterns ?p) fld) = {v. \<exists>form \<in> set forms. (fld, v) \<in> set form}"
    by (simp_all add: patterns_after_def new_predictor_def stored_def)
  have once: "count_list (stored (patterns ?p) fld) v = 1"
    if "form \<in> set forms" "(fld, v) \<in> set form" for form v
  proof -
    from that s have "v \<in> set (stored (patterns ?p) fld)" by auto
    with d show ?thesis by (rule count_list_distinct)
  qed
  from d once getSuggestions_distinct[OF d] show ?thesis by blast
qed

theorem patterns_deduplicated_witness:
  "stored (patterns (patterns_after None
      [[(''city'', JStr ''Boston'')], [(''city'', JStr ''Boston''), (''zip'', JStr ''02108'')],
       [(''city'', JStr ''Bonn'')], [(''city'', JStr ''Boston'')]])) ''city''
     = [JStr ''Boston'', JStr ''Bonn''] \<and>
   getSuggestions (patterns_after None
      [[(''city'', JStr ''Boston'')], [(''city'', JStr ''Boston''), (''zip'', JStr ''02108'')],
       [(''city'', JStr ''Bonn'')], [(''city'', JStr ''Boston'')]]) ''city'' ''Bo''
     = Inr [''Boston'', ''Bonn''] \<and>
   count_list (stored (patterns (patterns_after None
      [[(''city'', JStr ''Boston'')], [(''city'', JStr ''Boston''), (''zip'', JStr ''02108'')],
       [(''city'', JStr ''Bonn'')], [(''city'', JStr ''Boston'')]])) ''city'') (JStr ''Boston'') = 1"
  using patterns_deduplicated [of None
      "[[(''city'', JStr ''Boston'')], [(''city'', JStr ''Boston''), (''zip'', JStr ''02108'')],
       [(''city'', JStr ''Bonn'')], [(''city'', JStr ''Boston'')]]" "''city''" "''Bo''"]
  by (simp add: getSuggestions_def patterns_after_def new_predictor_def updatePatterns_def
      update_pattern_def set_add_def starts_with_def stored_def)

section \<open>Properties of FieldRelationshipGraph\<close>

lemma map_of_connect_keys: "map fst (connect a b ns) = map fst ns"
  by (induction ns) (auto simp: connect_def)

lemma map_of_connect_None: "(map_of (connect a b ns) k = None) = (map_of ns k = None)"
proof -
  have "fst ` set (connect a b ns) = set (map fst (connect a b ns))" by simp
  also have "\<dots> = fst ` set ns" by (simp add: map_of_connect_keys)
  finally show ?thesis by (simp add: map_of_eq_None_iff)
qed

lemma addNode_has: "map_of (nodes (addNode g n)) n \<noteq> None"
  by (cases "map_of (nodes g) n") (simp_all add: addNode_def map_of_put)

lemma addNode_keeps: "map_of (nodes g) k \<noteq> None \<Longrightarrow> map_of (nodes (addNode g n)) k \<noteq> None"
  by (cases "map_of (nodes g) n") (simp_all add: addNode_def map_of_put)

lemma addNode_edges: "edges (addNode g n) = edges g"
  by (cases "map_of (nodes g) n") (simp_all add: addNode_def)

lemma addNode_present: "map_of (nodes g) n \<noteq> None \<Longrightarrow> addNode g n = g"
  by (cases "map_of (nodes g) n") (simp_all add: addNode_def)

lemma addEdge_nodes:
  "map_of (nodes (addEdge g a b rd)) a \<noteq> None \<and> map_of (nodes (addEdge g a b rd)) b \<noteq> None"
proof -
  let ?g1 = "addNode (addNode g a) b"
  have a: "map_of (nodes ?g1) a \<noteq> None" by (rule addNode_keeps) (rule addNode_has)
  have b: "map_of (nodes ?g1) b \<noteq> None" by (rule addNode_has)
  show ?thesis
    using a b
    by (cases "map_of (edges ?g1) (a @ ''-'' @ b)")
       (simp_all add: addEdge_def Let_def map_of_connect_None)
qed

lemma addEdge_has_edge: "map_of (edges (addEdge g a b rd)) (a @ ''-'' @ b) \<noteq> None"
  by (cases "map_of (edges (addNode (addNode g a) b)) (a @ ''-'' @ b)")
     (simp_all add: addEdge_def Let_def map_of_put)

lemma addEdge_idem: "addEdge (addEdge g a b rd) a b rd' = addEdge g a b rd"
proof -
  let ?g1 = "addEdge g a b rd"
  from addEdge_nodes[of g a b rd]
  have "addNode (addNode ?g1 a) b = ?g1" by (simp add: addNode_present)
  moreover from addEdge_has_edge[of g a b rd]
  obtain e where "map_of (edges ?g1) (a @ ''-'' @ b) = Some e" by auto
  ultimately show ?thesis by (simp add: addEdge_def[of ?g1] Let_def)
qed

lemma addEdge_distinct:
  "distinct (map fst (edges g)) \<Longrightarrow> distinct (map fst (edges (addEdge g a b rd)))"
  by (cases "map_of (edges (addNode (addNode g a) b)) (a @ ''-'' @ b)")
     (simp_all add: addEdge_def Let_def addNode_edges distinct_put)

lemma graph_after_distinct:
  assumes "distinct (map fst (edges g))"
  shows "distinct (map fst (edges (foldl graph_step g calls)))"
  using assms
proof (induction calls arbitrary: g)
  case Nil
  then show ?case by simp
next
  case (Cons c calls)
  have "distinct (map fst (edges (graph_step g c)))"
    using Cons.prems by (cases c) (simp_all add: addNode_edges addEdge_distinct)
  from Cons.IH[OF this] show ?case by simp
qed

lemma count_key_distinct:
  "distinct (map fst al) \<Longrightarrow> map_of al k \<noteq> None \<Longrightarrow> length (filter (\<lambda>(k', v). k' = k) al) = 1"
proof (induction al)
  case Nil
  then show ?case by simp
next
  case (Cons x al)
  obtain k' v where x: "x = (k', v)" by (cases x)
  show ?case
  proof (cases "k' = k")
    case True
    with Cons.prems x have "\<forall>y \<in> set al. fst y \<noteq> k" by auto
    then have "filter (\<lambda>(k', v). k' = k) al = []" by (induction al) auto
    with True x show ?thesis by simp
  next
    case False
    with Cons x show ?thesis by simp
  qed
qed

text \<open>
  C8. On the graph that any history of \<open>addNode\<close> and \<open>addEdge\<close> calls built, a second
  \<open>addEdge(a, b)\<close> leaves the graph exactly as the first left it, whatever relation data
  the two calls carry: the edge table holds one entry for the key \<open>a-b\<close> after the first
  call and after the second, and the node table has entries for \<open>a\<close> and for \<open>b\<close>.
\<close>

theorem addEdge_idempotent:
  "addEdge (addEdge (graph_after calls) a b rd) a b rd' = addEdge (graph_after calls) a b rd \<and>
   length (filter (\<lambda>(k, e). k = a @ ''-'' @ b) (edges (addEdge (graph_after calls) a b rd))) = 1 \<and>
   length (filter (\<lambda>(k, e). k = a @ ''-'' @ b)
             (edges (addEdge (addEdge (graph_after calls) a b rd) a b rd'))) = 1 \<and>
   a \<in> fst ` set (nodes (addEdge (graph_after calls) a b rd)) \<and>
   b \<in> fst ` set (nodes (addEdge (graph_after calls) a b rd))"
proof -
  let ?g = "graph_after calls"
  have "distinct (map fst (edges ?g))"
    unfolding graph_after_def by (rule graph_after_distinct) (simp add: new_graph_def)
  then have d: "distinct (map fst (edges (addEdge ?g a b rd)))" by (rule addEdge_distinct)
  have one: "length (filter (\<lambda>(k, e). k = a @ ''-'' @ b) (edges (addEdge ?g a b rd))) = 1"
    using count_key_distinct[OF d addEdge_has_edge] .
  from addEdge_nodes[of ?g a b rd]
  have n: "a \<in> fst ` set (nodes (addEdge ?g a b rd))" "b \<in> fst ` set (nodes (addEdge ?g a b rd))"
    by (simp_all add: map_of_eq_None_iff)
  from one n show ?thesis by (simp add: addEdge_idem)
qed

theorem addEdge_idempotent_witness:
  "addEdge (addEdge (graph_after [AddEdge ''email'' ''username'' []]) ''city'' ''zip'' [])
      ''city'' ''zip'' [(''weight'', JNum 2)]
     = addEdge (graph_after [AddEdge ''email'' ''username'' []]) ''city'' ''zip'' [] \<and>
   map fst (edges (addEdge (graph_after [AddEdge ''email'' ''username'' []]) ''city'' ''zip'' []))
     = [''email-username'', ''city-zip''] \<and>
   map fst (nodes (addEdge (graph_after [AddEdge ''email'' ''username'' []]) ''city'' ''zip'' []))
     = [''email'', ''username'', ''city'', ''zip'']"
  using addEdge_idempotent [of "[AddEdge ''email'' ''username'' []]" "''city''" "''zip''" "[]"
      "[(''weight'', JNum 2)]"]
  by (simp add: graph_after_def new_graph_def addEdge_def addNode_def connect_def set_add_def
      edge_object_def Let_def)

section \<open>Properties of FieldValidator\<close>

lemma empty_value_rules:
  assumes "is_empty_value v"
  shows "validateEmail h v" "validatePhone h v" "validateUrl h v" "validateNumber h v"
    "validateDate h v" "validatePattern h v pattern" "validateMinLength h v n"
    "validateMaxLength h v n" "\<not> validateRequired h v"
  using assms
  by (auto simp: validateEmail_def validatePhone_def validateUrl_def validateNumber_def
      validateDate_def validatePattern_def validateMinLength_def validateMaxLength_def
      validateRequired_def is_empty_value_def trim_def)

lemma attribute_validations_empty:
  "is_empty_value v \<Longrightarrow> list_all valid (attribute_validations h fld fieldName v)"
  by (simp add: attribute_validations_def empty_value_rules)

lemma name_based_empty:
  "is_empty_value v \<Longrightarrow> getNameBasedValidation h fieldName v = Some x \<Longrightarrow> valid x"
  by (auto simp: getNameBasedValidation_def Let_def empty_value_rules split: if_splits)

lemma type_validations_empty:
  assumes "is_empty_value v"
    and "rule_for rs t \<in> Inr ` ({None} \<union> Some ` {Rule_email, Rule_phone, Rule_url, Rule_number, Rule_date})"
  shows "\<exists>vs. type_validations h rs t fieldName v = Inr vs \<and> list_all valid vs"
  using assms by (auto simp: type_validations_def empty_value_rules)

lemma new_validator_type_rule:
  "type_rule_accepts_empty new_validator fld
     = (v_type fld \<noteq> ''required'' \<and> v_type fld \<notin> set proto_names)"
  by (auto simp: type_rule_accepts_empty_def rule_for_def new_validator_def proto_names_def)

text \<open>
  C9, as the claim states it, fails in its last sentence. A field that is not required and
  whose type is the string \<open>required\<close> selects the rule \<open>required\<close> through its type, and
  \<open>validate\<close> reports the empty string invalid. So it does for a field of type \<open>text\<close>
  that is not required, once \<open>addRule\<close> has stored under \<open>text\<close> a rule that rejects the
  empty string.
\<close>

theorem optional_empty_field_reported_invalid:
  "validate \<lparr>number_to_string = (\<lambda>x. ''0''), parses_as_url = (\<lambda>s. False),
             parses_as_number = (\<lambda>s. False), parses_as_date = (\<lambda>s. False),
             regexp_test = (\<lambda>p s. Some False)\<rparr>
     new_validator
     \<lparr>v_name = ''nickname'', v_id = '''', v_type = ''required'', v_required = False,
      v_pattern = '''', v_minLength = 0, v_maxLength = 0\<rparr> (JStr '''')
   = Inr \<lparr>r_valid = False,
          r_validations = [\<lparr>rule_name = ''required'', valid = False,
                            message = ''nickname is not a valid required''\<rparr>],
          r_errors = [''nickname is not a valid required'']\<rparr> \<and>
   addRule new_validator ''text'' (Some (\<lambda>v. v \<noteq> JStr ''''))
   = Inr (new_validator @ [(''text'', Rule_custom (\<lambda>v. v \<noteq> JStr ''''))]) \<and>
   validate \<lparr>number_to_string = (\<lambda>x. ''0''), parses_as_url = (\<lambda>s. False),
             parses_as_number = (\<lambda>s. False), parses_as_date = (\<lambda>s. False),
             regexp_test = (\<lambda>p s. Some False)\<rparr>
     (new_validator @ [(''text'', Rule_custom (\<lambda>v. v \<noteq> JStr ''''))])
     \<lparr>v_name = ''nickname'', v_id = '''', v_type = ''text'', v_required = False,
      v_pattern = '''', v_minLength = 0, v_maxLength = 0\<rparr> (JStr '''')
   = Inr \<lparr>r_valid = False,
          r_validations = [\<lparr>rule_name = ''text'', valid = False,
                            message = ''nickname is not a valid text''\<rparr>],
          r_errors = [''nickname is not a valid text'']\<rparr>"
  by (simp add: validate_def required_validations_def attribute_validations_def
      type_validations_def rule_for_def new_validator_def getNameBasedValidation_def
      validateRequired_def trim_def toLowerCase_def lower_char_def starts_with_def Let_def
      addRule_def)

text \<open>
  C9, amended. For a value that is \<open>null\<close>, \<open>undefined\<close> or the empty string, the rules
  email, phone, url, number, date, pattern, minLength and maxLength return true and the
  rule required returns false. \<open>validate\<close> on such a value raises nothing and reports
  valid, with no error message, for every field that is not required and whose type
  selects one of the five type rules or no rule.
\<close>

theorem empty_value_passes_all_but_required:
  assumes "is_empty_value v"
  shows "validateEmail h v \<and> validatePhone h v \<and> validateUrl h v \<and> validateNumber h v \<and>
         validateDate h v \<and> validatePattern h v pattern \<and> validateMinLength h v n \<and>
         validateMaxLength h v n \<and> \<not> validateRequired h v \<and>
         (\<not> v_required fld \<and> type_rule_accepts_empty rs fld \<longrightarrow>
            (\<exists>r. validate h rs fld v = Inr r \<and> r_valid r \<and> r_errors r = []))"
proof -
  have val: "\<exists>r. validate h rs fld v = Inr r \<and> r_valid r \<and> r_errors r = []"
    if opt: "\<not> v_required fld" and t: "type_rule_accepts_empty rs fld"
  proof -
    let ?name = "if v_name fld \<noteq> [] then v_name fld else if v_id fld \<noteq> [] then v_id fld else ''unknown''"
    let ?type = "if v_type fld \<noteq> [] then v_type fld else ''text''"
    from t type_validations_empty[OF assms, where rs = rs and t = ?type and h = h and fieldName = ?name]
    obtain ts where ts: "type_validations h rs ?type ?name v = Inr ts" "list_all valid ts"
      by (auto simp: type_rule_accepts_empty_def)
    have req: "required_validations h rs fld ?name v = Inr []"
      using opt by (simp add: required_validations_def)
    have nb: "list_all valid (case getNameBasedValidation h ?name v of None \<Rightarrow> [] | Some x \<Rightarrow> [x])"
      using name_based_empty[OF assms, where h = h and fieldName = ?name]
      by (cases "getNameBasedValidation h ?name v") simp_all
    let ?all = "attribute_validations h fld ?name v @ ts
         @ (case getNameBasedValidation h ?name v of None \<Rightarrow> [] | Some x \<Rightarrow> [x])"
    have all: "list_all valid ?all"
      using attribute_validations_empty[OF assms, where h = h and fld = fld and fieldName = ?name] ts(2) nb by simp
    then have "filter (\<lambda>x. \<not> valid x) ?all = []"
      by (simp add: list_all_iff filter_empty_conv)
    with all have "validate h rs fld v
        = Inr \<lparr>r_valid = True, r_validations = ?all, r_errors = []\<rparr>"
      unfolding validate_def Let_def req ts(1) by simp
    then show ?thesis by simp
  qed
  from empty_value_rules[OF assms] val show ?thesis by blast
qed

theorem empty_value_passes_all_but_required_witness:
  "validate \<lparr>number_to_string = (\<lambda>x. ''0''), parses_as_url = (\<lambda>s. False),
             parses_as_number = (\<lambda>s. False), parses_as_date = (\<lambda>s. False),
             regexp_test = (\<lambda>p s. Some False)\<rparr>
      new_validator
      \<lparr>v_name = ''email'', v_id = '''', v_type = ''email'', v_required = False,
       v_pattern = ''.+'', v_minLength = 5, v_maxLength = 0\<rparr> (JStr '''')
     = Inr \<lparr>r_valid = True,
            r_validations =
              [\<lparr>rule_name = ''pattern'', valid = True,
                 message = ''email does not match the required pattern''\<rparr>,
               \<lparr>rule_name = ''minLength'', valid = True,
                 message = ''email must be at least 5 characters''\<rparr>,
               \<lparr>rule_name = ''email'', valid = True,
                 message = ''email is not a valid email''\<rparr>,
               \<lparr>rule_name = ''email'', valid = True,
                 message = ''Please enter a valid email address''\<rparr>],
            r_errors = []\<rparr> \<and>
   \<not> validateRequired \<lparr>number_to_string = (\<lambda>x. ''0''), parses_as_url = (\<lambda>s. False),
             parses_as_number = (\<lambda>s. False), parses_as_date = (\<lambda>s. False),
             regexp_test = (\<lambda>p s. Some False)\<rparr> (JStr '''')"
  using empty_value_passes_all_but_required
    [of "JStr ''''"
      "\<lparr>number_to_string = (\<lambda>x. ''0''), parses_as_url = (\<lambda>s. False),
             parses_as_number = (\<lambda>s. False), parses_as_date = (\<lambda>s. False),
             regexp_test = (\<lambda>p s. Some False)\<rparr>"
      "''.+''" 5
      "\<lparr>v_name = ''email'', v_id = '''', v_type = ''email'', v_required = False,
       v_pattern = ''.+'', v_minLength = 5, v_maxLength = 0\<rparr>" new_validator]
  by (simp add: is_empty_value_def validate_def required_validations_def
      attribute_validations_def type_validations_def rule_for_def new_validator_def
      getNameBasedValidation_def validateEmail_def validatePattern_def validateMinLength_def
      toLowerCase_def lower_char_def starts_with_def Let_def show_int_def
      type_rule_accepts_empty_def)

end
